theory Spec2Isabelle
  imports Main "HOL-Library.Word"
begin

section \<open>DeviceReactor: machine types and shared conventions\<close>

text \<open>
  The embedding follows \<^verbatim>\<open>src/DeviceReactor.h\<close> class by class.
  \<^item> \<^verbatim>\<open>byte\<close> is an 8-bit word and \<^verbatim>\<open>unsigned long\<close> (the type of \<^verbatim>\<open>millis()\<close>) a 32-bit
    word; \<^verbatim>\<open>unsigned int\<close> is a word whose width is left open (16 bits on the AVR boards,
    32 on the ARM and ESP cores). Their arithmetic wraps.
  \<^item> The signed \<^verbatim>\<open>int\<close> and \<^verbatim>\<open>long\<close> are modelled by \<open>int\<close>: signed overflow is undefined
    in C++, so the theorems speak about executions in which it does not occur and in
    which every value converted to \<^verbatim>\<open>int\<close> fits.
  \<^item> A fixed-size member array \<^verbatim>\<open>T a[N]\<close> is a function from the index to \<open>T\<close>; the
    capacity \<open>N\<close> (a preprocessor constant of the sketch) is a parameter of every
    function that loops over the array or checks a bound.
  \<^item> A function pointer is the address of the function (a \<open>nat\<close>), \<^verbatim>\<open>nullptr\<close> is
    \<open>None\<close>.
  \<^item> \<^verbatim>\<open>Serial.println(msg); while(1);\<close> is the result \<open>Halt msg\<close>; a call that returns is
    \<open>Done out x\<close> with the lines \<open>out\<close> it printed on the serial port.
\<close>

type_synonym byte = "8 word"
type_synonym ulong = "32 word"

abbreviation LOW :: byte where "LOW \<equiv> 0"
abbreviation HIGH :: byte where "HIGH \<equiv> 1"
abbreviation INVALID_HANDLE :: nat where "INVALID_HANDLE \<equiv> 255"

datatype 'a run = Halt string | Done "string list" 'a

section \<open>Interval: the slot table of software timers\<close>

record Interval =
  callbacks :: "nat \<Rightarrow> nat option"
  counts :: "nat \<Rightarrow> int"
  waits :: "nat \<Rightarrow> ulong"
  lastRuns :: "nat \<Rightarrow> ulong"
  msgs :: "nat \<Rightarrow> byte"
  paused :: "nat \<Rightarrow> bool"

text \<open>
  What a timer callback can see of the scheduler: the table and the clock. A callback
  is any transformer of this world (it may clear, pause or add timers, and time passes
  while it runs); \<open>env f\<close> is the body of the function at address \<open>f\<close>.
\<close>

record world =
  sched :: Interval
  clock :: ulong

type_synonym cb_env = "nat \<Rightarrow> byte \<Rightarrow> world \<Rightarrow> world"

text \<open>One callback invocation: slot, function, message passed.\<close>

type_synonym fire = "nat \<times> nat \<times> byte"

text \<open>
  \<^verbatim>\<open>findSlot\<close>: the loop \<^verbatim>\<open>for (byte i = 0; i < TOTAL_INTERVALS; i++)\<close>, entered at \<open>i\<close>.
  The loops of this class count in a \<^verbatim>\<open>byte\<close>; the model follows them for tables of at
  most 255 slots, the sizes for which \<^verbatim>\<open>INVALID_HANDLE\<close> is not a slot.
\<close>

function findSlot_from :: "nat \<Rightarrow> nat \<Rightarrow> Interval \<Rightarrow> nat" where
  "findSlot_from N i s =
     (if i < N then (if counts s i = -1 then i else findSlot_from N (Suc i) s)
      else INVALID_HANDLE)"
  by pat_completeness auto
termination
  by (relation "measure (\<lambda>(N, i, s). N - i)") auto

declare findSlot_from.simps [simp del]

definition findSlot :: "nat \<Rightarrow> Interval \<Rightarrow> nat" where
  "findSlot N s = findSlot_from N 0 s"

definition add :: "nat \<Rightarrow> nat option \<Rightarrow> ulong \<Rightarrow> int \<Rightarrow> byte \<Rightarrow> world \<Rightarrow> (nat \<times> world) run" where
  "add N callback wait count msg w =
     (let slot = findSlot N (sched w) in
      if slot \<ge> N then
        Halt ''FATAL ERROR: All interval slots used. Increase TOTAL_INTERVALS. Halting.''
      else
        Done [] (slot, w\<lparr>sched := (sched w)\<lparr>
          callbacks := (callbacks (sched w))(slot := callback),
          counts := (counts (sched w))(slot := count),
          waits := (waits (sched w))(slot := wait),
          lastRuns := (lastRuns (sched w))(slot := clock w),
          msgs := (msgs (sched w))(slot := msg),
          paused := (paused (sched w))(slot := False)\<rparr>\<rparr>))"

definition clear :: "nat \<Rightarrow> nat \<Rightarrow> Interval \<Rightarrow> Interval" where
  "clear N index s =
     (if index < N then
        s\<lparr>callbacks := (callbacks s)(index := None),
          counts := (counts s)(index := -1),
          paused := (paused s)(index := False),
          waits := (waits s)(index := 0),
          msgs := (msgs s)(index := 0),
          lastRuns := (lastRuns s)(index := 0)\<rparr>
      else s)"

definition setMessage :: "nat \<Rightarrow> nat \<Rightarrow> byte \<Rightarrow> Interval \<Rightarrow> Interval" where
  "setMessage N index msg s =
     (if index \<ge> N then s
      else if counts s index \<ge> 0 then s\<lparr>msgs := (msgs s)(index := msg)\<rparr>
      else s)"

definition pause :: "nat \<Rightarrow> nat \<Rightarrow> Interval \<Rightarrow> Interval" where
  "pause N index s =
     (if index \<ge> N then s
      else if counts s index \<ge> 0 then s\<lparr>paused := (paused s)(index := True)\<rparr>
      else s)"

definition resume :: "nat \<Rightarrow> nat \<Rightarrow> world \<Rightarrow> world" where
  "resume N index w =
     (if index \<ge> N then w
      else if counts (sched w) index \<ge> 0 then
        w\<lparr>sched := (sched w)\<lparr>paused := (paused (sched w))(index := False),
                              lastRuns := (lastRuns (sched w))(index := clock w)\<rparr>\<rparr>
      else w)"

text \<open>
  The body of the loop of \<^verbatim>\<open>Interval::update\<close> for slot \<open>i\<close>. The callback runs on the
  world and returns the world it leaves; the bookkeeping after it reads the table
  again, as the source does.
\<close>

definition update_slot :: "cb_env \<Rightarrow> nat \<Rightarrow> world \<Rightarrow> world \<times> fire list" where
  "update_slot env i w =
     (if counts (sched w) i \<ge> 0 \<and> \<not> paused (sched w) i \<and> callbacks (sched w) i \<noteq> None then
        if clock w - lastRuns (sched w) i \<ge> waits (sched w) i then
          let localCallback = the (callbacks (sched w) i);
              localMsg = msgs (sched w) i;
              w1 = env localCallback localMsg w;
              w2 = w1\<lparr>sched := (sched w1)\<lparr>lastRuns := (lastRuns (sched w1))(i := clock w1)\<rparr>\<rparr>;
              s2 = sched w2;
              w3 = (if counts s2 i > 0 \<and> callbacks s2 i \<noteq> None then
                      (let c = counts s2 i - 1 in
                       w2\<lparr>sched := s2\<lparr>counts := (counts s2)(i := (if c = 0 then -1 else c))\<rparr>\<rparr>)
                    else w2)
          in (w3, [(i, localCallback, localMsg)])
        else (w, [])
      else (w, []))"

fun update_loop :: "cb_env \<Rightarrow> nat list \<Rightarrow> world \<Rightarrow> world \<times> fire list" where
  "update_loop env [] w = (w, [])"
| "update_loop env (i # is) w =
     (let (w1, f1) = update_slot env i w;
          (w2, f2) = update_loop env is w1
      in (w2, f1 @ f2))"

definition update :: "cb_env \<Rightarrow> nat \<Rightarrow> world \<Rightarrow> world \<times> fire list" where
  "update env N w = update_loop env [0..<N] w"

text \<open>The six fields of slot \<open>i\<close>, and the invocations of slot \<open>i\<close> in a trace.\<close>

definition slot :: "nat \<Rightarrow> Interval \<Rightarrow> nat option \<times> int \<times> ulong \<times> ulong \<times> byte \<times> bool" where
  "slot i s = (callbacks s i, counts s i, waits s i, lastRuns s i, msgs s i, paused s i)"

definition fires_of :: "nat \<Rightarrow> fire list \<Rightarrow> fire list" where
  "fires_of i fs = filter (\<lambda>f. fst f = i) fs"

text \<open>
  Conditions on the callbacks of a sketch. \<open>leaves_slot env i\<close>: no callback writes
  slot \<open>i\<close> or lets the clock advance. \<open>keeps_inactive env i\<close>: no callback revives
  slot \<open>i\<close> once it is inactive (none of them calls \<^verbatim>\<open>add\<close>).
\<close>

definition leaves_slot :: "cb_env \<Rightarrow> nat \<Rightarrow> bool" where
  "leaves_slot env i \<longleftrightarrow>
     (\<forall>f m u. slot i (sched (env f m u)) = slot i (sched u) \<and> clock (env f m u) = clock u)"

definition inactive :: "nat \<Rightarrow> Interval \<Rightarrow> bool" where
  "inactive i s \<longleftrightarrow> counts s i = -1 \<and> callbacks s i = None"

definition keeps_inactive :: "cb_env \<Rightarrow> nat \<Rightarrow> bool" where
  "keeps_inactive env i \<longleftrightarrow> (\<forall>f m u. inactive i (sched u) \<longrightarrow> inactive i (sched (env f m u)))"

text \<open>
  A run of scans: the sketch calls \<^verbatim>\<open>update()\<close> at the clock readings of the list.
\<close>

fun scans :: "cb_env \<Rightarrow> nat \<Rightarrow> world \<Rightarrow> ulong list \<Rightarrow> world \<times> fire list" where
  "scans env N w [] = (w, [])"
| "scans env N w (t # ts) =
     (let (w1, f1) = update env N (w\<lparr>clock := t\<rparr>);
          (w2, f2) = scans env N w1 ts
      in (w2, f1 @ f2))"

text \<open>
  Sample tables. In \<open>boot\<close> every slot is free and not paused, as the constructor
  leaves it, and the other arrays are zero;
  \<open>armed\<close> holds one one-shot timer, \<open>two_timers\<close> a one-shot and a repeating one.
  \<open>idle\<close> is a sketch whose callbacks do not touch the scheduler, \<open>stops0\<close> one whose
  function 7 stops the timer in slot 0, \<open>rearms0\<close> one whose function 7 stops the
  timer in slot 0 and adds a one-shot timer (function 9 after 50 ms, message 3), and
  \<open>reschedules0\<close> one whose function 7 stops the timer in slot 0 and adds a timer of
  three shots.
\<close>

definition boot :: Interval where
  "boot = \<lparr>callbacks = (\<lambda>_. None), counts = (\<lambda>_. -1), waits = (\<lambda>_. 0),
            lastRuns = (\<lambda>_. 0), msgs = (\<lambda>_. 0), paused = (\<lambda>_. False)\<rparr>"

definition idle :: cb_env where
  "idle f m u = u"

definition stops0 :: cb_env where
  "stops0 f m u = (if f = 7 then u\<lparr>sched := clear 2 0 (sched u)\<rparr> else u)"

definition rearms0 :: cb_env where
  "rearms0 f m u =
     (if f = 7 then
        (case add 2 (Some 9) 50 1 3 (u\<lparr>sched := clear 2 0 (sched u)\<rparr>) of
           Halt msg \<Rightarrow> u\<lparr>sched := clear 2 0 (sched u)\<rparr>
         | Done out r \<Rightarrow> snd r)
      else u)"

definition reschedules0 :: cb_env where
  "reschedules0 f m u =
     (if f = 7 then
        (case add 2 (Some 9) 50 3 3 (u\<lparr>sched := clear 2 0 (sched u)\<rparr>) of
           Halt msg \<Rightarrow> u\<lparr>sched := clear 2 0 (sched u)\<rparr>
         | Done out r \<Rightarrow> snd r)
      else u)"

definition armed :: world where
  "armed = \<lparr>sched = \<lparr>callbacks = (\<lambda>_. None)(0 := Some 7), counts = (\<lambda>_. -1)(0 := 1),
                       waits = (\<lambda>_. 0)(0 := 100), lastRuns = (\<lambda>_. 0)(0 := 1000),
                       msgs = (\<lambda>_. 0)(0 := 5), paused = (\<lambda>_. False)(0 := False)\<rparr>,
             clock = 1000\<rparr>"

definition two_timers :: world where
  "two_timers = \<lparr>sched = \<lparr>callbacks = (\<lambda>_. None)(0 := Some 7, 1 := Some 8),
                            counts = (\<lambda>_. -1)(0 := 1, 1 := 0),
                            waits = (\<lambda>_. 0)(0 := 100, 1 := 10),
                            lastRuns = (\<lambda>_. 0)(0 := 1000, 1 := 1000),
                            msgs = (\<lambda>_. 0)(0 := 5, 1 := 6), paused = (\<lambda>_. False)\<rparr>,
                  clock = 1100\<rparr>"

text \<open>
  The table \<open>two_timers\<close> with slot 0 taken over by function 9 (period 50, message 3):
  \<open>c\<close> is the count of slot 0, \<open>l0\<close> and \<open>l1\<close> are the timestamps of the two slots and \<open>t\<close>
  is the clock.
\<close>

definition taken_over :: "int \<Rightarrow> ulong \<Rightarrow> ulong \<Rightarrow> ulong \<Rightarrow> world" where
  "taken_over c l0 l1 t =
     \<lparr>sched = \<lparr>callbacks = (\<lambda>_. None)(0 := Some 9, 1 := Some 8),
                counts = (\<lambda>_. -1)(0 := c, 1 := 0),
                waits = (\<lambda>_. 0)(0 := 50, 1 := 10),
                lastRuns = (\<lambda>_. 0)(0 := l0, 1 := l1),
                msgs = (\<lambda>_. 0)(0 := 3, 1 := 6), paused = (\<lambda>_. False)\<rparr>,
      clock = t\<rparr>"

section \<open>Button: the debounced digital input\<close>

text \<open>
  The fields of \<^verbatim>\<open>class Button\<close>. The two callback pointers are only called under their
  \<^verbatim>\<open>has...Func\<close> flags and are left out; a call of \<^verbatim>\<open>pressed()\<close> or \<^verbatim>\<open>released()\<close> is an
  event of the poll. \<^verbatim>\<open>pinMode\<close> configures the electrical pin and has no counterpart here.
\<close>

record Button =
  pin :: byte
  pressMode :: byte
  initialized :: bool
  state :: byte
  oldState :: byte
  hasPressFunc :: bool
  hasReleaseFunc :: bool
  lastDebounceTime :: ulong

definition BUTTON_PRESS_HIGH :: byte where [simp]: "BUTTON_PRESS_HIGH = 0"
definition BUTTON_PRESS_LOW :: byte where [simp]: "BUTTON_PRESS_LOW = 1"
definition BUTTON_INPUT_PULLUP :: byte where [simp]: "BUTTON_INPUT_PULLUP = 2"

datatype button_event = Pressed | Released

text \<open>\<^verbatim>\<open>Button::init\<close>; \<open>raw\<close> is what \<^verbatim>\<open>digitalRead(pin)\<close> returns.\<close>

definition button_init :: "byte \<Rightarrow> byte \<Rightarrow> byte \<Rightarrow> Button \<Rightarrow> Button run" where
  "button_init newPin newMode raw b =
     (if Button.initialized b then
        Done [''WARNING: Button already initialized. Ignoring.''] b
      else
        Done [] (b\<lparr>Button.pin := newPin, pressMode := newMode,
                   Button.state := raw, oldState := raw, Button.initialized := True\<rparr>))"

text \<open>
  \<^verbatim>\<open>Button::checkForPress\<close>, with the debounce window \<open>D\<close> (\<^verbatim>\<open>DEBOUNCE_DELAY\<close>, 50 unless
  the sketch defines it), the clock reading \<open>now\<close> of this poll and the level \<open>raw\<close> read
  from the pin.
\<close>

definition checkForPress :: "ulong \<Rightarrow> ulong \<Rightarrow> byte \<Rightarrow> Button \<Rightarrow> Button \<times> button_event list" where
  "checkForPress D now raw b =
     (let b1 = b\<lparr>Button.state := raw\<rparr> in
      if Button.state b1 \<noteq> oldState b1 then
        if now - lastDebounceTime b1 \<ge> D then
          let b2 = b1\<lparr>oldState := Button.state b1, lastDebounceTime := now\<rparr>;
              isPressed = (if pressMode b2 = BUTTON_PRESS_HIGH then Button.state b2 = HIGH
                           else Button.state b2 = LOW)
          in (b2, if isPressed \<and> hasPressFunc b2 then [Pressed]
                  else if \<not> isPressed \<and> hasReleaseFunc b2 then [Released]
                  else [])
        else (b1, [])
      else (b1, []))"

text \<open>
  A run of polls: the sketch calls \<^verbatim>\<open>update()\<close> at the clock readings of the list, and the
  pin shows the paired level. \<open>commit_times\<close> lists the readings at which the committed
  level \<open>oldState\<close> changed.
\<close>

fun polls :: "ulong \<Rightarrow> Button \<Rightarrow> (ulong \<times> byte) list \<Rightarrow> Button" where
  "polls D b [] = b"
| "polls D b ((now, raw) # rest) = polls D (fst (checkForPress D now raw b)) rest"

fun commit_times :: "ulong \<Rightarrow> Button \<Rightarrow> (ulong \<times> byte) list \<Rightarrow> ulong list" where
  "commit_times D b [] = []"
| "commit_times D b ((now, raw) # rest) =
     (let b' = fst (checkForPress D now raw b) in
      (if oldState b' \<noteq> oldState b then [now] else []) @ commit_times D b' rest)"

text \<open>Each reading of the list is at least \<open>D\<close> after the one before, starting after \<open>t0\<close>.\<close>

fun spaced :: "ulong \<Rightarrow> ulong \<Rightarrow> ulong list \<Rightarrow> bool" where
  "spaced D t0 [] = True"
| "spaced D t0 (t # ts) = (D \<le> t - t0 \<and> spaced D t ts)"

text \<open>
  The property as the specification words it. \<open>stable_for D t l hist\<close>: going back from
  the reading \<open>t\<close> through the earlier samples \<open>hist\<close> (latest first), the pin shows the
  level \<open>l\<close> all the way to a sample at least \<open>D\<close> old. \<open>commits_when_stable\<close>: in a run of
  polls the committed level changes only at a poll whose level has been stable in that
  sense.
\<close>

fun stable_for :: "ulong \<Rightarrow> ulong \<Rightarrow> byte \<Rightarrow> (ulong \<times> byte) list \<Rightarrow> bool" where
  "stable_for D t l [] = False"
| "stable_for D t l ((t', l') # older) = (l' = l \<and> (D \<le> t - t' \<or> stable_for D t l older))"

fun commits_when_stable :: "ulong \<Rightarrow> Button \<Rightarrow> (ulong \<times> byte) list \<Rightarrow> (ulong \<times> byte) list \<Rightarrow> bool" where
  "commits_when_stable D b hist [] = True"
| "commits_when_stable D b hist ((now, raw) # rest) =
     (let b' = fst (checkForPress D now raw b) in
      (oldState b' \<noteq> oldState b \<longrightarrow> stable_for D now raw hist) \<and>
      commits_when_stable D b' ((now, raw) # hist) rest)"

text \<open>
  A button on a pull-up input: released, as \<^verbatim>\<open>init\<close> leaves it, and pressed, committed
  at the clock reading 1001.
\<close>

definition released_button :: Button where
  "released_button = \<lparr>pin = 2, pressMode = BUTTON_INPUT_PULLUP, initialized = True,
     state = HIGH, oldState = HIGH, hasPressFunc = True, hasReleaseFunc = True,
     lastDebounceTime = 0\<rparr>"

definition pressed_button :: Button where
  "pressed_button = \<lparr>pin = 2, pressMode = BUTTON_INPUT_PULLUP, initialized = True,
     state = LOW, oldState = LOW, hasPressFunc = True, hasReleaseFunc = True,
     lastDebounceTime = 1001\<rparr>"

section \<open>AnalogSensor: smoothing, mapping, stabilisation, zones\<close>

record Zone =
  zone_id :: byte
  min_val :: int
  max_val :: int

text \<open>
  The fields of \<^verbatim>\<open>class AnalogSensor\<close> (\<^verbatim>\<open>id\<close> of \<^verbatim>\<open>struct Zone\<close> is \<open>zone_id\<close> here). The
  two callback pointers are only called under their \<^verbatim>\<open>has...Func\<close> flags and are left out;
  a call of \<^verbatim>\<open>changed(v)\<close> or \<^verbatim>\<open>zoneChanged(z)\<close> is an event of the poll.
\<close>

record AnalogSensor =
  pin :: byte
  initialized :: bool
  hasInitialRead :: bool
  inputMin :: int
  inputMax :: int
  outputMin :: int
  outputMax :: int
  inverted :: bool
  quantizeStep :: int
  delta :: int
  currentValue :: int
  previousValue :: int
  avgSamples :: byte
  avgCount :: byte
  accumulatedSum :: ulong
  hasChangeFunc :: bool
  hiResValue :: int
  currentReportedValue :: int
  hysteresis_amount :: int
  defined_zones :: "nat \<Rightarrow> Zone"
  zone_count :: byte
  currentZoneID :: byte
  previousZoneID :: byte
  hasZoneChangeFunc :: bool

datatype sensor_event = Changed int | ZoneChanged byte

text \<open>\<^verbatim>\<open>INVALID_HANDLE\<close> as a zone id: no zone matched.\<close>

definition NO_ZONE :: byte where [simp]: "NO_ZONE = 255"

text \<open>\<^verbatim>\<open>AnalogSensor::init\<close>.\<close>

definition sensor_init :: "byte \<Rightarrow> AnalogSensor \<Rightarrow> AnalogSensor run" where
  "sensor_init newPin s =
     (if AnalogSensor.initialized s then
        Done [''WARNING: AnalogSensor already initialized. Ignoring.''] s
      else
        Done [] (s\<lparr>AnalogSensor.pin := newPin, AnalogSensor.initialized := True\<rparr>))"

text \<open>Division of C++ on \<^verbatim>\<open>int\<close> and \<^verbatim>\<open>long\<close>: the quotient is truncated towards zero.\<close>

definition tdiv :: "int \<Rightarrow> int \<Rightarrow> int" where
  "tdiv a b = (if (a < 0) = (b < 0) then \<bar>a\<bar> div \<bar>b\<bar> else - (\<bar>a\<bar> div \<bar>b\<bar>))"

text \<open>
  Modelled from the spec: \<^verbatim>\<open>map()\<close> belongs to the Arduino core, not to this repository.
  The specification gives it as
  \<^verbatim>\<open>outMin + (clamped - inMin) * (outMax - outMin) / (inMax - inMin)\<close>, in integers. (For
  \<open>inMax = inMin\<close> the core divides by zero; \<open>tdiv\<close> then gives 0.)
\<close>

definition arduino_map :: "int \<Rightarrow> int \<Rightarrow> int \<Rightarrow> int \<Rightarrow> int \<Rightarrow> int" where
  "arduino_map x in_min in_max out_min out_max =
     tdiv ((x - in_min) * (out_max - out_min)) (in_max - in_min) + out_min"

text \<open>
  \<^verbatim>\<open>round((float)hiResValue / quantizeStep)\<close> for a positive step. The source divides in
  single precision and rounds half away from zero; \<open>round_quot\<close> computes the exact
  quotient rounded half away from zero, in unbounded integers. The two agree when the
  operands are in the range of a 16-bit \<^verbatim>\<open>int\<close>: both conversions to \<^verbatim>\<open>float\<close> are then
  exact, and the computed quotient, also after the \<^verbatim>\<open>+0.5\<close> of the core's \<^verbatim>\<open>round\<close>
  macro, lies on the same side of every half-integer as the exact quotient. Outside that
  range (from \<open>2^24\<close> on the conversion to \<^verbatim>\<open>float\<close> is inexact) they can differ; what is
  proved of the candidate is proved under \<open>in_range\<close>, which keeps the operands inside.
\<close>

definition round_quot :: "int \<Rightarrow> int \<Rightarrow> int" where
  "round_quot h q =
     (if 0 \<le> h then (2 * h + q) div (2 * q) else - ((2 * (- h) + q) div (2 * q)))"

text \<open>\<^verbatim>\<open>average\<close>, and the smoothing branch at the head of \<^verbatim>\<open>update\<close>.\<close>

definition average :: "int \<Rightarrow> AnalogSensor \<Rightarrow> AnalogSensor" where
  "average newReading s =
     s\<lparr>accumulatedSum := accumulatedSum s + word_of_int newReading, avgCount := avgCount s + 1\<rparr>"

definition smooth :: "int \<Rightarrow> AnalogSensor \<Rightarrow> AnalogSensor" where
  "smooth rawValue s =
     (if avgSamples s > 1 then average rawValue s
      else s\<lparr>accumulatedSum := word_of_int rawValue, avgCount := 1\<rparr>)"

text \<open>
  The block that \<^verbatim>\<open>update\<close> and \<^verbatim>\<open>performInitialRead\<close> share: mean of the window, clamp to
  the input range, map, clamp to the output range, invert.
\<close>

definition hiRes_of :: "AnalogSensor \<Rightarrow> int" where
  "hiRes_of s =
     (let avgValue = uint (accumulatedSum s div ucast (avgSamples s));
          avgValue = (if avgValue < inputMin s then inputMin s else avgValue);
          avgValue = (if avgValue > inputMax s then inputMax s else avgValue);
          h = arduino_map avgValue (inputMin s) (inputMax s) (outputMin s) (outputMax s);
          h = (if h < outputMin s then outputMin s else h);
          h = (if h > outputMax s then outputMax s else h)
      in if inverted s then outputMax s + outputMin s - h else h)"

text \<open>
  \<open>V_potential\<close>: the quantised candidate, clamped to the output range. The source
  computes the product in \<^verbatim>\<open>long\<close> and stores it in the \<^verbatim>\<open>int\<close> \<^verbatim>\<open>V_potential\<close> before it
  clamps; here the product is an unbounded integer. The two agree when the product is in
  the range of \<^verbatim>\<open>int\<close> (with 16 bits \<open>32800\<close> would be stored as \<open>-32736\<close>); \<open>in_range\<close>
  carries that condition too.
\<close>

definition V_potential :: "AnalogSensor \<Rightarrow> int \<Rightarrow> int" where
  "V_potential s h =
     (let v = round_quot h (quantizeStep s) * quantizeStep s;
          v = (if v < outputMin s then outputMin s else v)
      in if v > outputMax s then outputMax s else v)"

text \<open>
  The mode selection of \<^verbatim>\<open>update\<close>: from the hi-res value \<open>h\<close> to the pair
  \<^verbatim>\<open>(valueChanged, newValue)\<close>.
\<close>

definition stabilize :: "AnalogSensor \<Rightarrow> int \<Rightarrow> bool \<times> int" where
  "stabilize s h =
     (if quantizeStep s > 0 then
        (let v = V_potential s h in
         if v \<noteq> currentReportedValue s then
           if v > currentReportedValue s then
             (let trigger_up = (currentReportedValue s + tdiv (quantizeStep s) 2) + hysteresis_amount s in
              if h \<ge> trigger_up then (True, v) else (False, h))
           else
             (let trigger_down = (currentReportedValue s - tdiv (quantizeStep s) 2) - hysteresis_amount s in
              if h \<le> trigger_down then (True, v) else (False, h))
         else (False, h))
      else if delta s > 1 then
        (if \<bar>h - currentReportedValue s\<bar> \<ge> delta s then (True, h) else (False, h))
      else
        (if h \<noteq> currentReportedValue s then (True, h) else (False, h)))"

text \<open>\<^verbatim>\<open>findZoneForValue\<close>: the loop over the first \<^verbatim>\<open>zone_count\<close> zones, entered at \<open>i\<close>.\<close>

function findZone_from :: "nat \<Rightarrow> AnalogSensor \<Rightarrow> int \<Rightarrow> byte" where
  "findZone_from i s val =
     (if i < unat (zone_count s) then
        (if val \<ge> min_val (defined_zones s i) \<and> val \<le> max_val (defined_zones s i)
         then zone_id (defined_zones s i)
         else findZone_from (Suc i) s val)
      else NO_ZONE)"
  by pat_completeness auto
termination
  by (relation "measure (\<lambda>(i, s, val). unat (zone_count s) - i)") auto

declare findZone_from.simps [simp del]

definition findZoneForValue :: "AnalogSensor \<Rightarrow> int \<Rightarrow> byte" where
  "findZoneForValue s val = findZone_from 0 s val"

text \<open>
  \<^verbatim>\<open>addZone\<close> with the capacity \<open>M\<close> (\<^verbatim>\<open>MAX_ZONES_PER_SENSOR\<close>), and \<^verbatim>\<open>clearZones\<close>.
\<close>

definition addZone :: "nat \<Rightarrow> byte \<Rightarrow> int \<Rightarrow> int \<Rightarrow> AnalogSensor \<Rightarrow> AnalogSensor" where
  "addZone M ident min_value max_value s =
     (if unat (zone_count s) \<ge> M then s
      else if min_value > max_value then s
      else s\<lparr>defined_zones := (defined_zones s)(unat (zone_count s) :=
                 \<lparr>zone_id = ident, min_val = min_value, max_val = max_value\<rparr>),
              zone_count := zone_count s + 1\<rparr>)"

definition clearZones :: "AnalogSensor \<Rightarrow> AnalogSensor" where
  "clearZones s = s\<lparr>zone_count := 0, currentZoneID := NO_ZONE, previousZoneID := NO_ZONE\<rparr>"

text \<open>\<^verbatim>\<open>performInitialRead\<close>; \<open>rawValue\<close> is what \<^verbatim>\<open>analogRead(pin)\<close> returns.\<close>

definition performInitialRead :: "int \<Rightarrow> AnalogSensor \<Rightarrow> AnalogSensor" where
  "performInitialRead rawValue s =
     (let s1 = (if avgSamples s > 1
                then s\<lparr>accumulatedSum := word_of_int rawValue * ucast (avgSamples s),
                       avgCount := avgSamples s\<rparr>
                else s\<lparr>accumulatedSum := word_of_int rawValue, avgCount := 1\<rparr>);
          s2 = s1\<lparr>hiResValue := hiRes_of s1\<rparr>;
          s3 = s2\<lparr>currentReportedValue :=
                    (if quantizeStep s2 > 0 then V_potential s2 (hiResValue s2) else hiResValue s2)\<rparr>;
          s4 = s3\<lparr>currentValue := currentReportedValue s3, previousValue := currentReportedValue s3\<rparr>;
          s5 = (if zone_count s4 > 0
                then (let initialZone = findZoneForValue s4 (currentReportedValue s4)
                      in s4\<lparr>currentZoneID := initialZone, previousZoneID := initialZone\<rparr>)
                else s4)
      in s5\<lparr>accumulatedSum := 0, avgCount := 0, hasInitialRead := True\<rparr>)"

text \<open>
  \<^verbatim>\<open>AnalogSensor::update\<close>. The three steps after the hi-res value are named here:
  \<open>report\<close> commits a changed value and calls \<^verbatim>\<open>changed\<close>, \<open>classify\<close> is the zone
  detection, and the accumulator is reset last.
\<close>

definition report :: "bool \<times> int \<Rightarrow> AnalogSensor \<Rightarrow> AnalogSensor \<times> sensor_event list" where
  "report d s =
     (if fst d then
        (let s1 = s\<lparr>currentReportedValue := snd d, currentValue := snd d, previousValue := snd d\<rparr>
         in (s1, if hasChangeFunc s1 then [Changed (currentReportedValue s1)] else []))
      else (s, []))"

definition classify :: "AnalogSensor \<Rightarrow> AnalogSensor \<times> sensor_event list" where
  "classify s =
     (if zone_count s > 0 then
        (let detectedZoneID = findZoneForValue s (currentReportedValue s);
             s1 = s\<lparr>currentZoneID := detectedZoneID\<rparr>
         in if currentZoneID s1 \<noteq> previousZoneID s1 then
              (let s2 = s1\<lparr>previousZoneID := currentZoneID s1\<rparr>
               in (s2, if hasZoneChangeFunc s2 then [ZoneChanged (currentZoneID s2)] else []))
            else (s1, []))
      else (s, []))"

definition sensor_update :: "int \<Rightarrow> AnalogSensor \<Rightarrow> AnalogSensor \<times> sensor_event list" where
  "sensor_update rawValue s =
     (if \<not> hasInitialRead s then (performInitialRead rawValue s, [])
      else
        (let s1 = smooth rawValue s in
         if avgCount s1 \<ge> avgSamples s1 then
           (let s2 = s1\<lparr>hiResValue := hiRes_of s1\<rparr>;
                (s3, e1) = report (stabilize s2 (hiResValue s2)) s2;
                (s4, e2) = classify s3
            in (s4\<lparr>accumulatedSum := 0, avgCount := 0\<rparr>, e1 @ e2))
         else (s1, [])))"

text \<open>The values passed to \<^verbatim>\<open>changed\<close>, and the zones passed to \<^verbatim>\<open>zoneChanged\<close>, in a trace.\<close>

fun changes :: "sensor_event list \<Rightarrow> int list" where
  "changes [] = []"
| "changes (Changed v # es) = v # changes es"
| "changes (ZoneChanged z # es) = changes es"

fun zone_changes :: "sensor_event list \<Rightarrow> byte list" where
  "zone_changes [] = []"
| "zone_changes (Changed v # es) = zone_changes es"
| "zone_changes (ZoneChanged z # es) = z # zone_changes es"

text \<open>The zones in definition order, and the test of \<^verbatim>\<open>findZoneForValue\<close> on one zone.\<close>

definition zones_of :: "AnalogSensor \<Rightarrow> Zone list" where
  "zones_of s = map (defined_zones s) [0..<unat (zone_count s)]"

definition inside :: "int \<Rightarrow> Zone \<Rightarrow> bool" where
  "inside val z \<longleftrightarrow> val \<ge> min_val z \<and> val \<le> max_val z"

text \<open>Whether a call halted the sketch.\<close>

fun halts :: "'a run \<Rightarrow> bool" where
  "halts (Halt msg) = True"
| "halts (Done out x) = False"

text \<open>
  A sample sensor: a potentiometer read after its first poll, input range 0..1023, output
  range 0..100, no smoothing, step 10 with hysteresis 3, reporting 10, with zones
  1 = [0, 30] and 2 = [20, 100] (overlapping) and both callbacks set.
\<close>

definition pot :: AnalogSensor where
  "pot = \<lparr>pin = 0, initialized = True, hasInitialRead = True,
           inputMin = 0, inputMax = 1023, outputMin = 0, outputMax = 100,
           inverted = False, quantizeStep = 10, delta = 1,
           currentValue = 10, previousValue = 10,
           avgSamples = 1, avgCount = 0, accumulatedSum = 0,
           hasChangeFunc = True, hiResValue = 10, currentReportedValue = 10,
           hysteresis_amount = 3,
           defined_zones = (\<lambda>_. \<lparr>zone_id = 0, min_val = 0, max_val = 0\<rparr>)
             (0 := \<lparr>zone_id = 1, min_val = 0, max_val = 30\<rparr>,
              1 := \<lparr>zone_id = 2, min_val = 20, max_val = 100\<rparr>),
           zone_count = 2, currentZoneID = 1, previousZoneID = 1,
           hasZoneChangeFunc = True\<rparr>"

text \<open>The sample sensor after a poll that read 400: reporting 40, in zone 2.\<close>

definition pot40 :: AnalogSensor where
  "pot40 = pot\<lparr>hiResValue := 39, currentReportedValue := 40, currentValue := 40,
     previousValue := 40, currentZoneID := 2, previousZoneID := 2\<rparr>"








section \<open>LED: blink, pulse and fade\<close>

text \<open>
  A call of \<^verbatim>\<open>analogWrite(pin, value)\<close> or \<^verbatim>\<open>digitalWrite(pin, value)\<close>. The field \<open>writes\<close>
  of the LED lists the calls made so far, latest last; the other fields are those of
  \<^verbatim>\<open>class LED\<close>. Every function that reads \<^verbatim>\<open>millis()\<close> takes the reading as \<open>now\<close>.

  The four counters and \<^verbatim>\<open>range\<close> are \<^verbatim>\<open>unsigned int\<close>, whose width depends on the board: 16
  bits on the AVR boards, 32 on the ARM and ESP cores. The record leaves the type of the
  counters open and the functions take it to be a word of any width \<open>'w\<close>; \<open>16 led\<close> and
  \<open>32 led\<close> are the two instances that occur.
\<close>

datatype pin_write = AnalogWrite byte byte | DigitalWrite byte byte

record 'c LED =
  pin :: byte
  pinG :: byte
  pinB :: byte
  R :: byte
  G :: byte
  B :: byte
  isRGB :: bool
  isDimmable :: bool
  commonAnode :: bool
  initialized :: bool
  state :: byte
  level :: byte
  blinkCount :: "'c"
  blinkMax :: "'c"
  lastBlinkTime :: ulong
  blinkDelay :: ulong
  blinking :: bool
  pulseCount :: "'c"
  pulseMax :: "'c"
  pulseLow :: byte
  pulseHigh :: byte
  pulseDuration :: ulong
  pulseUp :: bool
  lastPulseTime :: ulong
  pulsing :: bool
  writes :: "pin_write list"

type_synonym 'w led = "'w word LED"

definition setState :: "byte \<Rightarrow> 'w::len led \<Rightarrow> 'w led" where
  "setState newState led =
     (let led = led\<lparr>state := newState\<rparr> in
      if isRGB led then
        (if state led = LOW then
           (let val = (if commonAnode led then 255 else 0) in
            led\<lparr>writes := writes led @
              [AnalogWrite (pin led) val, AnalogWrite (pinG led) val, AnalogWrite (pinB led) val]\<rparr>)
         else
           led\<lparr>writes := writes led @
             [AnalogWrite (pin led) (R led), AnalogWrite (pinG led) (G led),
              AnalogWrite (pinB led) (B led)]\<rparr>)
      else if isDimmable led then
        led\<lparr>writes := writes led @ [AnalogWrite (pin led) (if state led = HIGH then level led else LOW)]\<rparr>
      else
        led\<lparr>writes := writes led @ [DigitalWrite (pin led) (state led)]\<rparr>)"

definition clearBlink :: "'w::len led \<Rightarrow> 'w led" where
  "clearBlink led =
     led\<lparr>blinkCount := 0, blinkMax := 0, lastBlinkTime := 0, blinkDelay := 0, blinking := False\<rparr>"

definition clearPulse :: "'w::len led \<Rightarrow> 'w led" where
  "clearPulse led =
     led\<lparr>pulseCount := 0, pulseMax := 0, pulseLow := 0, pulseHigh := 0, pulseDuration := 0,
         pulseUp := True, pulsing := False\<rparr>"

definition turnOn :: "'w::len led \<Rightarrow> 'w led" where
  "turnOn led = setState HIGH led"

definition turnOff :: "'w::len led \<Rightarrow> 'w led" where
  "turnOff led = setState LOW (clearPulse (clearBlink led))"

definition flip :: "'w::len led \<Rightarrow> 'w led" where
  "flip led = (if state led = HIGH then setState LOW led else setState HIGH led)"

definition setLevel :: "byte \<Rightarrow> 'w::len led \<Rightarrow> 'w led" where
  "setLevel newLevel led =
     (let led = led\<lparr>isDimmable := True, level := newLevel\<rparr> in
      if state led = HIGH then setState HIGH led else led)"

definition initPulse :: "ulong \<Rightarrow> ulong \<Rightarrow> 'w word \<Rightarrow> byte \<Rightarrow> byte \<Rightarrow> 'w::len led \<Rightarrow> 'w led" where
  "initPulse now pDelay count low high led =
     (let led = clearPulse (clearBlink led);
          led = led\<lparr>pulseLow := low, pulseHigh := high, pulseMax := count\<rparr>;
          safePDelay = (if pDelay < 2 then 2 else pDelay);
          led = led\<lparr>pulseDuration := safePDelay div 2, lastPulseTime := now, pulsing := True\<rparr>;
          led = setLevel (pulseLow led) led
      in setState HIGH led)"

definition initFade :: "ulong \<Rightarrow> ulong \<Rightarrow> byte \<Rightarrow> byte \<Rightarrow> 'w::len led \<Rightarrow> 'w led" where
  "initFade now duration start end led =
     (let led = clearPulse (clearBlink led);
          led = led\<lparr>pulseLow := start, pulseHigh := end, pulseMax := 0\<rparr>;
          led = led\<lparr>pulseDuration := (if duration < 1 then 1 else duration),
                    lastPulseTime := now, pulsing := True, pulseUp := (end > start)\<rparr>;
          led = setLevel start led
      in setState HIGH led)"

text \<open>
  The tail of \<^verbatim>\<open>runPulse\<close> ("We've pulsed enough"), reached by every path that does not
  return early.
\<close>

definition pulsed_enough :: "'w::len led \<Rightarrow> 'w led" where
  "pulsed_enough led =
     (if pulseCount led \<ge> pulseMax led \<and> pulseMax led > 0 then setState LOW (clearPulse led)
      else led)"

text \<open>
  \<^verbatim>\<open>runPulse\<close>. \<^verbatim>\<open>range\<close> is an \<^verbatim>\<open>unsigned int\<close>, the product and the quotient are
  \<^verbatim>\<open>unsigned long\<close>, and the assignment to the \<^verbatim>\<open>byte desiredLevel\<close> keeps the low 8 bits.
\<close>

definition runPulse :: "ulong \<Rightarrow> 'w::len led \<Rightarrow> 'w led" where
  "runPulse now led =
     (if pulsing led then
        (let elapsed = now - lastPulseTime led in
         if pulseUp led then
           (if elapsed \<ge> pulseDuration led then
              (let led = setState HIGH (led\<lparr>level := pulseHigh led\<rparr>) in
               if pulseMax led = 0 then clearPulse led
               else pulsed_enough (led\<lparr>pulseUp := False, lastPulseTime := now\<rparr>))
            else
              (let range = (ucast (pulseHigh led) - ucast (pulseLow led) :: 'w word);
                   desiredLevel = (ucast (ucast (pulseLow led) +
                                     (ucast range * elapsed) div pulseDuration led :: ulong) :: byte)
               in pulsed_enough (if level led \<noteq> desiredLevel
                                 then setState HIGH (led\<lparr>level := desiredLevel\<rparr>) else led)))
         else
           (if elapsed \<ge> pulseDuration led then
              (if pulseMax led = 0 then
                 setState LOW (clearPulse (setState HIGH (led\<lparr>level := pulseLow led\<rparr>)))
               else
                 pulsed_enough (led\<lparr>lastPulseTime := now, pulseUp := True,
                                    pulseCount := pulseCount led + 1\<rparr>))
            else
              (let range = (ucast (pulseHigh led) - ucast (pulseLow led) :: 'w word);
                   desiredLevel = (ucast (ucast (pulseHigh led) -
                                     (ucast range * elapsed) div pulseDuration led :: ulong) :: byte)
               in pulsed_enough (if level led \<noteq> desiredLevel
                                 then setState HIGH (led\<lparr>level := desiredLevel\<rparr>) else led))))
      else led)"

definition initBlink :: "ulong \<Rightarrow> ulong \<Rightarrow> 'w word \<Rightarrow> 'w::len led \<Rightarrow> 'w led" where
  "initBlink now bDelay count led =
     (let led = clearPulse led;
          led = led\<lparr>blinkCount := 0\<rparr>;
          led = (if count > 0
                 then led\<lparr>blinkMax := (if state led = HIGH then count * 2 - 1 else count * 2)\<rparr>
                 else led\<lparr>blinkMax := 0\<rparr>);
          safeBDelay = (if bDelay < 1 then 1 else bDelay)
      in led\<lparr>blinkDelay := safeBDelay div 2, lastBlinkTime := now, blinking := True\<rparr>)"

definition runBlink :: "ulong \<Rightarrow> 'w::len led \<Rightarrow> 'w led" where
  "runBlink now led =
     (if blinking led then
        (if now - lastBlinkTime led \<ge> blinkDelay led then
           (let led = flip (led\<lparr>lastBlinkTime := now, blinkCount := blinkCount led + 1\<rparr>) in
            if blinkCount led \<ge> blinkMax led \<and> blinkMax led > 0
            then (turnOff led)\<lparr>blinking := False\<rparr>
            else led)
         else led)
      else led)"

definition led_update :: "ulong \<Rightarrow> 'w::len led \<Rightarrow> 'w led" where
  "led_update now led = runPulse now (runBlink now led)"

definition pulse :: "ulong \<Rightarrow> ulong \<Rightarrow> 'w word \<Rightarrow> byte \<Rightarrow> byte \<Rightarrow> 'w::len led \<Rightarrow> 'w led" where
  "pulse now pDelay count low high led = initPulse now pDelay count low high led"

definition fadeIn :: "ulong \<Rightarrow> ulong \<Rightarrow> byte \<Rightarrow> 'w::len led \<Rightarrow> 'w led" where
  "fadeIn now duration targetLevel led = initFade now duration 0 targetLevel led"

definition fadeOut :: "ulong \<Rightarrow> ulong \<Rightarrow> 'w::len led \<Rightarrow> 'w led" where
  "fadeOut now duration led =
     (if state led = LOW then led
      else
        (let startLevel = (if isDimmable led \<and> level led > 0 then level led else 255)
         in initFade now duration startLevel 0 led))"

definition blink :: "ulong \<Rightarrow> ulong \<Rightarrow> 'w word \<Rightarrow> 'w::len led \<Rightarrow> 'w led" where
  "blink now delay count led = initBlink now delay count led"

text \<open>
  A run of polls of the blink engine at the clock readings of a list, and the number of
  toggles seen from outside: the polls after which the state of the LED, which
  \<^verbatim>\<open>setState\<close> writes to the pin, differs from the state before.
\<close>

fun blink_polls :: "'w::len led \<Rightarrow> ulong list \<Rightarrow> 'w led" where
  "blink_polls led [] = led"
| "blink_polls led (now # rest) = blink_polls (runBlink now led) rest"

fun toggles :: "'w::len led \<Rightarrow> ulong list \<Rightarrow> nat" where
  "toggles led [] = 0"
| "toggles led (now # rest) =
     (if state (runBlink now led) \<noteq> state led then 1 else 0) + toggles (runBlink now led) rest"

text \<open>
  A sample LED on pin 9: a plain one as the first \<^verbatim>\<open>init\<close> leaves it (off), and the same
  one switched on.
\<close>

definition lamp :: "'w::len led" where
  "lamp = \<lparr>pin = 9, pinG = 0, pinB = 0, R = 0, G = 0, B = 0, isRGB = False,
            isDimmable = False, commonAnode = True, initialized = True, state = LOW,
            level = 255, blinkCount = 0, blinkMax = 0, lastBlinkTime = 0, blinkDelay = 0,
            blinking = False, pulseCount = 0, pulseMax = 0, pulseLow = 0, pulseHigh = 255,
            pulseDuration = 0, pulseUp = True, lastPulseTime = 0, pulsing = False,
            writes = []\<rparr>"

definition lamp_on :: "'w::len led" where
  "lamp_on = lamp\<lparr>state := HIGH\<rparr>"

text \<open>
  Two animations of the sample LED: a pulse of one cycle between 10 and 200 with period
  100, started at 0 and polled at 50 and 75; and a pulse with count 0, just started.
\<close>

definition pulse_once :: "16 led" where
  "pulse_once = runPulse 75 (runPulse 50 (initPulse 0 100 1 10 200 lamp))"

definition ramp_up :: "16 led" where
  "ramp_up = initPulse 0 100 0 10 200 lamp"

section \<open>Interval: allocation and the scan\<close>

subsection \<open>\<^verbatim>\<open>findSlot\<close> returns the lowest free index\<close>

lemma findSlot_from_free:
  "N \<le> 255 \<Longrightarrow> findSlot_from N i s < N \<Longrightarrow>
     i \<le> findSlot_from N i s \<and> counts s (findSlot_from N i s) = -1 \<and>
     (\<forall>j. i \<le> j \<and> j < findSlot_from N i s \<longrightarrow> counts s j \<noteq> -1)"
proof (induction N i s rule: findSlot_from.induct)
  case (1 N i s)
  show ?case
  proof (cases "i < N")
    case False
    with "1.prems" show ?thesis by (simp add: findSlot_from.simps [of N i s])
  next
    case True
    show ?thesis
    proof (cases "counts s i = -1")
      case True
      with \<open>i < N\<close> show ?thesis by (simp add: findSlot_from.simps [of N i s])
    next
      case False
      with \<open>i < N\<close> have eq: "findSlot_from N i s = findSlot_from N (Suc i) s"
        by (simp add: findSlot_from.simps [of N i s])
      with "1.prems" have "findSlot_from N (Suc i) s < N" by simp
      from "1.IH" [OF \<open>i < N\<close> False "1.prems"(1) this] False show ?thesis
        unfolding eq by (metis Suc_leD Suc_leI le_neq_implies_less)
    qed
  qed
qed

lemma findSlot_from_finds:
  "i \<le> j \<Longrightarrow> j < N \<Longrightarrow> counts s j = -1 \<Longrightarrow> findSlot_from N i s \<le> j"
proof (induction N i s rule: findSlot_from.induct)
  case (1 N i s)
  from "1.prems" have "i < N" by simp
  show ?case
  proof (cases "counts s i = -1")
    case True
    with \<open>i < N\<close> "1.prems" show ?thesis by (simp add: findSlot_from.simps [of N i s])
  next
    case False
    with "1.prems" have "Suc i \<le> j" by (cases "i = j") auto
    from "1.IH" [OF \<open>i < N\<close> False this "1.prems"(2,3)] False \<open>i < N\<close>
    show ?thesis by (simp add: findSlot_from.simps [of N i s])
  qed
qed

lemma findSlot_from_range: "findSlot_from N i s < N \<or> findSlot_from N i s = INVALID_HANDLE"
proof (induction N i s rule: findSlot_from.induct)
  case (1 N i s)
  then show ?case by (simp add: findSlot_from.simps [of N i s])
qed

subsection \<open>Splitting the scan at a slot\<close>

lemma update_loop_append:
  "update_loop env (xs @ ys) w =
     (let (w1, f1) = update_loop env xs w; (w2, f2) = update_loop env ys w1 in (w2, f1 @ f2))"
  by (induction xs arbitrary: w) (auto split: prod.splits)

lemma upt_split_at: "i < N \<Longrightarrow> [0..<N] = [0..<i] @ i # [Suc i..<N]"
proof -
  assume "i < N"
  then obtain k where N: "N = i + k" and "0 < k" by (metis less_imp_add_positive)
  have "[0..<i + k] = [0..<i] @ [i..<i + k]" by (rule upt_add_eq_append) simp
  with \<open>i < N\<close> show ?thesis unfolding N by (simp only: upt_conv_Cons)
qed

lemma update_split:
  assumes "i < N"
  shows "update env N w =
     (let (v, f0) = update_loop env [0..<i] w;
          (v1, f1) = update_slot env i v;
          (v2, f2) = update_loop env [Suc i..<N] v1
      in (v2, f0 @ f1 @ f2))"
  unfolding update_def upt_split_at [OF assms] update_loop_append
  by (simp split: prod.splits)

subsection \<open>What the loop body does to the other slots\<close>

lemma update_slot_other:
  assumes "leaves_slot env i" "j \<noteq> i" "update_slot env j w = (w', fs)"
  shows "slot i (sched w') = slot i (sched w) \<and> clock w' = clock w \<and> fires_of i fs = []"
  using assms
  by (auto simp: update_slot_def leaves_slot_def slot_def fires_of_def Let_def
           split: option.splits if_splits)

lemma update_loop_other:
  assumes "leaves_slot env i" "i \<notin> set js" "update_loop env js w = (w', fs)"
  shows "slot i (sched w') = slot i (sched w) \<and> clock w' = clock w \<and> fires_of i fs = []"
  using assms(2,3)
proof (induction js arbitrary: w w' fs)
  case Nil
  then show ?case by (simp add: fires_of_def)
next
  case (Cons j js)
  obtain w1 f1 where s1: "update_slot env j w = (w1, f1)" by (cases "update_slot env j w")
  obtain w2 f2 where s2: "update_loop env js w1 = (w2, f2)" by (cases "update_loop env js w1")
  from Cons.prems s1 s2 have eq: "w' = w2" "fs = f1 @ f2" by auto
  from Cons.prems have "j \<noteq> i" "i \<notin> set js" by auto
  from update_slot_other [OF assms(1) \<open>j \<noteq> i\<close> s1] Cons.IH [OF \<open>i \<notin> set js\<close> s2]
  show ?case unfolding eq by (simp add: fires_of_def)
qed

subsection \<open>The loop body at a waiting, due or inactive slot\<close>

lemma update_slot_inactive:
  "counts (sched u) i = -1 \<Longrightarrow> update_slot env i u = (u, [])"
  by (simp add: update_slot_def split: option.splits)

lemma update_slot_waiting:
  "slot i (sched u) = (Some f, n, wt, t0, m, p) \<Longrightarrow> clock u - t0 < wt \<Longrightarrow>
     update_slot env i u = (u, [])"
  by (simp add: update_slot_def slot_def not_le [symmetric])

lemma update_slot_last_shot:
  assumes "leaves_slot env i" "slot i (sched u) = (Some f, 1, wt, t0, m, False)"
    and "wt \<le> clock u - t0"
  shows "\<exists>u'. update_slot env i u = (u', [(i, f, m)]) \<and> counts (sched u') i = -1 \<and>
           clock u' = clock u"
proof -
  from assms(1) have fr: "slot i (sched (env f m u)) = slot i (sched u)"
    "clock (env f m u) = clock u"
    by (simp_all add: leaves_slot_def)
  from fr(1) assms(2) have "counts (sched (env f m u)) i = 1"
    "callbacks (sched (env f m u)) i = Some f"
    by (simp_all add: slot_def)
  with assms(2,3) fr(2) show ?thesis
    by (simp add: update_slot_def slot_def Let_def)
qed

lemma add_lowest_free:
  assumes "N \<le> 255" "add N g wt n m x = Done out (k, x')"
  shows "k < N \<and> counts (sched x) k = -1 \<and> (\<forall>j<k. counts (sched x) j \<noteq> -1)"
proof -
  from assms(2) have k: "k = findSlot_from N 0 (sched x)" "findSlot_from N 0 (sched x) < N"
    by (auto simp: add_def findSlot_def Let_def split: if_splits)
  from findSlot_from_free [OF assms(1) k(2)] k show ?thesis by simp
qed

lemma add_reuses:
  assumes "i < N" "counts (sched x) i = -1"
  shows "\<exists>k x'. add N g wt n m x = Done [] (k, x') \<and> k \<le> i"
proof -
  from findSlot_from_finds [of 0 i N "sched x"] assms
  have "findSlot_from N 0 (sched x) \<le> i" by simp
  with assms(1) show ?thesis by (simp add: add_def findSlot_def Let_def)
qed

lemma scan_slot:
  assumes "leaves_slot env i" "i < N" "update env N u = (u', fs)"
  shows "\<exists>v v1 f1. update_slot env i v = (v1, f1) \<and> slot i (sched v) = slot i (sched u) \<and>
           clock v = clock u \<and> slot i (sched u') = slot i (sched v1) \<and>
           fires_of i fs = fires_of i f1"
proof -
  obtain v f0 where a: "update_loop env [0..<i] u = (v, f0)" by (cases "update_loop env [0..<i] u")
  obtain v1 f1 where b: "update_slot env i v = (v1, f1)" by (cases "update_slot env i v")
  obtain v2 f2 where c: "update_loop env [Suc i..<N] v1 = (v2, f2)"
    by (cases "update_loop env [Suc i..<N] v1")
  from assms(3) a b c have eq: "u' = v2" "fs = f0 @ f1 @ f2"
    by (simp_all add: update_split [OF assms(2)])
  have pre: "slot i (sched v) = slot i (sched u) \<and> clock v = clock u \<and> fires_of i f0 = []"
    by (rule update_loop_other [OF assms(1) _ a]) simp
  have post: "slot i (sched v2) = slot i (sched v1) \<and> clock v2 = clock v1 \<and> fires_of i f2 = []"
    by (rule update_loop_other [OF assms(1) _ c]) simp
  from pre post have "fires_of i fs = fires_of i f1"
    unfolding eq by (simp add: fires_of_def)
  with b pre post eq show ?thesis by (intro exI [of _ v] exI [of _ v1] exI [of _ f1]) simp
qed

subsection \<open>One-shot timers\<close>

lemma fires_of_append: "fires_of i (xs @ ys) = fires_of i xs @ fires_of i ys"
  by (simp add: fires_of_def)

lemma scan_inactive:
  assumes "leaves_slot env s" "s < N" "counts (sched u) s = -1"
  shows "fires_of s (snd (update env N u)) = [] \<and> counts (sched (fst (update env N u))) s = -1"
proof -
  from scan_slot [OF assms(1,2), of u "fst (update env N u)" "snd (update env N u)"]
  obtain b b1 h1 where
    B: "update_slot env s b = (b1, h1)" "slot s (sched b) = slot s (sched u)"
       "slot s (sched (fst (update env N u))) = slot s (sched b1)"
       "fires_of s (snd (update env N u)) = fires_of s h1"
    by auto
  from B(2) assms(3) have "counts (sched b) s = -1" by (simp add: slot_def)
  from update_slot_inactive [OF this, of env] B assms(3) show ?thesis
    by (simp add: fires_of_def slot_def)
qed

lemma scans_inactive:
  assumes "leaves_slot env s" "s < N"
  shows "counts (sched u) s = -1 \<Longrightarrow> fires_of s (snd (scans env N u ts)) = []"
proof (induction ts arbitrary: u)
  case Nil
  show ?case by (simp add: fires_of_def)
next
  case (Cons t ts)
  from Cons.prems have "counts (sched (u\<lparr>clock := t\<rparr>)) s = -1" by simp
  from scan_inactive [OF assms this] Cons.IH [of "fst (update env N (u\<lparr>clock := t\<rparr>))"]
  show ?case by (simp add: split_beta fires_of_append)
qed

lemma scan_one_shot:
  assumes "leaves_slot env s" "s < N" "slot s (sched u) = (Some f, 1, wt, t0, m, False)"
  shows "if wt \<le> clock u - t0
         then fires_of s (snd (update env N u)) = [(s, f, m)] \<and>
              counts (sched (fst (update env N u))) s = -1
         else fires_of s (snd (update env N u)) = [] \<and>
              slot s (sched (fst (update env N u))) = slot s (sched u)"
proof -
  from scan_slot [OF assms(1,2), of u "fst (update env N u)" "snd (update env N u)"]
  obtain a a1 f1 where
    A: "update_slot env s a = (a1, f1)" "slot s (sched a) = slot s (sched u)"
       "clock a = clock u" "slot s (sched (fst (update env N u))) = slot s (sched a1)"
       "fires_of s (snd (update env N u)) = fires_of s f1"
    by auto
  from A(2) assms(3) have sa: "slot s (sched a) = (Some f, 1, wt, t0, m, False)" by simp
  show ?thesis
  proof (cases "wt \<le> clock u - t0")
    case True
    with A(3) have "wt \<le> clock a - t0" by simp
    from update_slot_last_shot [OF assms(1) sa this] A(1)
    have "f1 = [(s, f, m)]" "counts (sched a1) s = -1" by auto
    with A(4,5) True show ?thesis by (simp add: fires_of_def slot_def)
  next
    case False
    with A(3) have "clock a - t0 < wt" by simp
    from update_slot_waiting [OF sa this, of env] A False show ?thesis
      by (simp add: fires_of_def)
  qed
qed

lemma scans_one_shot:
  assumes "leaves_slot env s" "s < N"
  shows "slot s (sched u) = (Some f, 1, wt, t0, m, False) \<Longrightarrow>
         fires_of s (snd (scans env N u ts)) =
           (if \<exists>t \<in> set ts. wt \<le> t - t0 then [(s, f, m)] else [])"
proof (induction ts arbitrary: u)
  case Nil
  show ?case by (simp add: fires_of_def)
next
  case (Cons t ts)
  let ?u = "u\<lparr>clock := t\<rparr>"
  from Cons.prems have su: "slot s (sched ?u) = (Some f, 1, wt, t0, m, False)" by simp
  note one = scan_one_shot [OF assms su]
  show ?case
  proof (cases "wt \<le> t - t0")
    case True
    with one have now: "fires_of s (snd (update env N ?u)) = [(s, f, m)]"
      and off: "counts (sched (fst (update env N ?u))) s = -1"
      by simp_all
    from scans_inactive [OF assms off, of ts] now True show ?thesis
      by (simp add: split_beta fires_of_append)
  next
    case False
    with one have now: "fires_of s (snd (update env N ?u)) = []"
      and keep: "slot s (sched (fst (update env N ?u))) = slot s (sched ?u)"
      by simp_all
    from keep su have "slot s (sched (fst (update env N ?u))) = (Some f, 1, wt, t0, m, False)"
      by simp
    from Cons.IH [OF this] now False show ?thesis
      by (simp add: split_beta fires_of_append)
  qed
qed

text \<open>
  One-shot timers in a sketch whose callbacks leave the slot of the timer alone.
  Let \<^verbatim>\<open>add\<close> with count 1 return slot \<open>s\<close>, storing the clock reading
  \<open>clock w\<close> as the last-fire timestamp, and let no callback write slot \<open>s\<close> or hold
  the clock up. A scan
  \<^verbatim>\<open>update()\<close> made while the slot is as \<^verbatim>\<open>add\<close> left it does not invoke the callback as long as
  the elapsed time is below the period; the scan that finds the elapsed time at or above the
  period invokes it exactly once, with the stored message, and leaves the count at \<open>-1\<close>,
  so that the next \<^verbatim>\<open>add\<close> succeeds with a slot no higher than \<open>s\<close>. A scan over a table in
  which the count of \<open>s\<close> is \<open>-1\<close> never invokes it. Over a run of scans at the clock
  readings \<open>ts\<close> the callback of \<open>s\<close> is invoked once if one of the readings is at least
  the period after the timestamp, and never otherwise. Every \<^verbatim>\<open>add\<close> that returns gives
  the lowest index whose count is \<open>-1\<close>.
\<close>

lemma one_shot_undisturbed:
  assumes cap: "N \<le> 255"
    and added: "add N (Some f) wt 1 m w = Done out (s, w1)"
    and frame: "leaves_slot env s"
    and same: "slot s (sched u) = slot s (sched w1)"
    and scan: "update env N u = (u', fs)"
    and later: "counts (sched v) s = -1" "update env N v = (v', gs)"
    and again: "add N g wt' n' m' x = Done out' (k, x')"
  shows "(s < N \<and> slot s (sched w1) = (Some f, 1, wt, clock w, m, False)) \<and>
         (clock u - clock w < wt \<longrightarrow> fires_of s fs = [] \<and> slot s (sched u') = slot s (sched u)) \<and>
         (wt \<le> clock u - clock w \<longrightarrow>
            fires_of s fs = [(s, f, m)] \<and> counts (sched u') s = -1 \<and>
            (\<exists>k' y. add N g wt' n' m' u' = Done [] (k', y) \<and> k' \<le> s)) \<and>
         (fires_of s gs = [] \<and> counts (sched v') s = -1) \<and>
         fires_of s (snd (scans env N u ts)) =
           (if \<exists>t \<in> set ts. wt \<le> t - clock w then [(s, f, m)] else []) \<and>
         (k < N \<and> counts (sched x) k = -1 \<and> (\<forall>j<k. counts (sched x) j \<noteq> -1))"
proof -
  from add_lowest_free [OF cap added] have sN: "s < N" by simp
  from added have w1: "slot s (sched w1) = (Some f, 1, wt, clock w, m, False)"
    by (auto simp: add_def Let_def slot_def split: if_splits)
  from scan_slot [OF frame sN scan] obtain a a1 f1 where
    A: "update_slot env s a = (a1, f1)" "slot s (sched a) = slot s (sched u)"
       "clock a = clock u" "slot s (sched u') = slot s (sched a1)" "fires_of s fs = fires_of s f1"
    by blast
  from A(2) same w1 have sa: "slot s (sched a) = (Some f, 1, wt, clock w, m, False)" by simp
  have waiting: "fires_of s fs = [] \<and> slot s (sched u') = slot s (sched u)"
    if "clock u - clock w < wt"
  proof -
    from that A(3) have "clock a - clock w < wt" by simp
    from update_slot_waiting [OF sa this, of env] A show ?thesis by (simp add: fires_of_def)
  qed
  have due: "fires_of s fs = [(s, f, m)] \<and> counts (sched u') s = -1 \<and>
            (\<exists>k' y. add N g wt' n' m' u' = Done [] (k', y) \<and> k' \<le> s)"
    if "wt \<le> clock u - clock w"
  proof -
    from that A(3) have "wt \<le> clock a - clock w" by simp
    from update_slot_last_shot [OF frame sa this] A(1)
    have f1: "f1 = [(s, f, m)]" and c1: "counts (sched a1) s = -1" by auto
    from A(4) c1 have cu: "counts (sched u') s = -1" by (simp add: slot_def)
    from add_reuses [OF sN cu] f1 A(5) cu show ?thesis by (simp add: fires_of_def)
  qed
  from scan_slot [OF frame sN later(2)] obtain b b1 h1 where
    B: "update_slot env s b = (b1, h1)" "slot s (sched b) = slot s (sched v)"
       "slot s (sched v') = slot s (sched b1)" "fires_of s gs = fires_of s h1"
    by blast
  from B(2) later(1) have "counts (sched b) s = -1" by (simp add: slot_def)
  from update_slot_inactive [OF this, of env] B later(1)
  have idle: "fires_of s gs = [] \<and> counts (sched v') s = -1"
    by (simp add: fires_of_def slot_def)
  from same w1 have su: "slot s (sched u) = (Some f, 1, wt, clock w, m, False)" by simp
  note run = scans_one_shot [OF frame sN su, of ts]
  note low = add_lowest_free [OF cap again]
  show ?thesis
    apply (intro conjI impI)
    using sN w1 waiting due idle run low by (blast | simp)+
qed

lemma one_shot_undisturbed_example:
  "add 2 (Some 7) 100 1 5 \<lparr>sched = boot, clock = 1000\<rparr> = Done [] (0, armed) \<and>
   fires_of 0 (snd (update idle 2 (armed\<lparr>clock := 1050\<rparr>))) = [] \<and>
   fires_of 0 (snd (update idle 2 (armed\<lparr>clock := 1100\<rparr>))) = [(0, 7, 5)] \<and>
   counts (sched (fst (update idle 2 (armed\<lparr>clock := 1100\<rparr>)))) 0 = -1 \<and>
   fires_of 0 (snd (update idle 2 \<lparr>sched = boot, clock = 1100\<rparr>)) = [] \<and>
   fires_of 0 (snd (scans idle 2 armed [1050, 1100, 1200])) = [(0, 7, 5)] \<and>
   add 2 (Some 8) 10 0 6 armed = Done [] (1, two_timers\<lparr>clock := 1000\<rparr>) \<and>
   counts (sched armed) 1 = -1 \<and> counts (sched armed) 0 \<noteq> -1"
proof -
  have B: "add 2 (Some 8) 10 0 6 armed = Done [] (1, two_timers\<lparr>clock := 1000\<rparr>)"
    by (auto simp: add_def findSlot_def findSlot_from.simps [of 2 0]
          findSlot_from.simps [of 2 "Suc 0"] armed_def two_timers_def fun_eq_iff)
  have A: "add 2 (Some 7) 100 1 5 \<lparr>sched = boot, clock = 1000\<rparr> = Done [] (0, armed)"
    by (simp add: add_def findSlot_def findSlot_from.simps [of 2 0] boot_def armed_def)
  have F: "leaves_slot idle 0"
    by (simp add: leaves_slot_def idle_def)
  have L: "counts (sched \<lparr>sched = boot, clock = 1100\<rparr>) 0 = -1"
    by (simp add: boot_def)
  have early: "clock (armed\<lparr>clock := 1050\<rparr>) - clock \<lparr>sched = boot, clock = 1000\<rparr> < (100 :: ulong)"
    by simp
  have late: "(100 :: ulong) \<le> clock (armed\<lparr>clock := 1100\<rparr>) - clock \<lparr>sched = boot, clock = 1000\<rparr>"
    by simp
  have P: "x = (fst x, snd x)" for x :: "world \<times> fire list" by simp
  from one_shot_undisturbed [where u = armed and ts = "[1050, 1100, 1200]", OF _ A F _ P L P B]
  have 0: "fires_of 0 (snd (scans idle 2 armed [1050, 1100, 1200])) = [(0, 7, 5)]"
    by simp
  from one_shot_undisturbed [OF _ A F _ P L P B, of "armed\<lparr>clock := 1050\<rparr>"] early
  have 1: "fires_of 0 (snd (update idle 2 (armed\<lparr>clock := 1050\<rparr>))) = []"
    by simp
  from one_shot_undisturbed [OF _ A F _ P L P B, of "armed\<lparr>clock := 1100\<rparr>"] late
  have 2: "fires_of 0 (snd (update idle 2 (armed\<lparr>clock := 1100\<rparr>))) = [(0, 7, 5)] \<and>
     counts (sched (fst (update idle 2 (armed\<lparr>clock := 1100\<rparr>)))) 0 = -1 \<and>
     fires_of 0 (snd (update idle 2 \<lparr>sched = boot, clock = 1100\<rparr>)) = [] \<and>
     counts (sched armed) 1 = -1 \<and> counts (sched armed) 0 \<noteq> -1"
    by simp
  from A B 0 1 2 show ?thesis by simp
qed

subsection \<open>A callback that clears its own slot\<close>

lemma inactive_clear: "i < N \<Longrightarrow> inactive i (clear N i s)"
  by (simp add: inactive_def clear_def)

lemma update_slot_keeps_inactive:
  assumes "keeps_inactive env i" "j \<noteq> i" "inactive i (sched w)"
  shows "inactive i (sched (fst (update_slot env j w)))"
proof -
  have step: "inactive i (sched (env f m w))" for f m
    using assms(1,3) by (simp add: keeps_inactive_def)
  show ?thesis
    using assms(2,3) step
    by (simp add: update_slot_def inactive_def Let_def split: option.splits)
qed

lemma update_loop_keeps_inactive:
  assumes "keeps_inactive env i"
  shows "i \<notin> set js \<Longrightarrow> inactive i (sched w) \<Longrightarrow> inactive i (sched (fst (update_loop env js w)))"
proof (induction js arbitrary: w)
  case Nil
  then show ?case by simp
next
  case (Cons j js)
  from Cons.prems have "j \<noteq> i" "i \<notin> set js" by auto
  from update_slot_keeps_inactive [OF assms \<open>j \<noteq> i\<close> Cons.prems(2)]
  have "inactive i (sched (fst (update_loop env js (fst (update_slot env j w)))))"
    by (rule Cons.IH [OF \<open>i \<notin> set js\<close>])
  then show ?case by (simp add: split_beta Let_def)
qed

lemma update_slot_cleared:
  assumes "i < N" "callbacks (sched v) i = Some f" "0 \<le> counts (sched v) i"
    and "\<not> paused (sched v) i" "waits (sched v) i \<le> clock v - lastRuns (sched v) i"
    and "sched (env f (msgs (sched v) i) v) = clear N i (sched v)"
  shows "update_slot env i v =
           ((env f (msgs (sched v) i) v)
              \<lparr>sched := (clear N i (sched v))
                 \<lparr>lastRuns := (lastRuns (clear N i (sched v)))
                                 (i := clock (env f (msgs (sched v) i) v))\<rparr>\<rparr>,
            [(i, f, msgs (sched v) i)])"
  using assms by (simp add: update_slot_def Let_def clear_def)

text \<open>
  A callback that clears its slot and does nothing else to the table.
  The table has at most 255 slots, the scan has reached slot \<open>i\<close> in world
  \<open>v\<close>, the slot is due, and its callback clears slot \<open>i\<close>: it returns with the table as
  \<^verbatim>\<open>clear(i)\<close> makes it (time may pass meanwhile). Then the body of the
  loop leaves the slot as \<^verbatim>\<open>clear\<close> left it except for the refreshed timestamp: the count
  is \<open>-1\<close>, not decremented and not set again, and the callback pointer is null. The scan
  goes on with the slots \<open>i+1 .. N-1\<close> from that world, each processed by the same loop
  body, and if none of the callbacks allocates the slot again it is still inactive when
  \<^verbatim>\<open>update()\<close> returns.
\<close>

lemma clear_only:
  assumes cap: "N \<le> 255"
    and bound: "i < N"
    and reach: "update_loop env [0..<i] w = (v, f0)"
    and active: "callbacks (sched v) i = Some f" "0 \<le> counts (sched v) i" "\<not> paused (sched v) i"
    and due: "waits (sched v) i \<le> clock v - lastRuns (sched v) i"
    and clears: "sched (env f (msgs (sched v) i) v) = clear N i (sched v)"
    and others: "keeps_inactive env i"
    and rest: "update_loop env [Suc i..<N] (fst (update_slot env i v)) = (v2, f2)"
  shows "update_slot env i v =
           ((env f (msgs (sched v) i) v)
              \<lparr>sched := (clear N i (sched v))
                 \<lparr>lastRuns := (lastRuns (clear N i (sched v)))
                                 (i := clock (env f (msgs (sched v) i) v))\<rparr>\<rparr>,
            [(i, f, msgs (sched v) i)]) \<and>
         counts (sched (fst (update_slot env i v))) i = -1 \<and>
         callbacks (sched (fst (update_slot env i v))) i = None \<and>
         update env N w = (v2, f0 @ (i, f, msgs (sched v) i) # f2) \<and>
         counts (sched v2) i = -1 \<and> callbacks (sched v2) i = None"
proof -
  have step: "update_slot env i v =
           ((env f (msgs (sched v) i) v)
              \<lparr>sched := (clear N i (sched v))
                 \<lparr>lastRuns := (lastRuns (clear N i (sched v)))
                                 (i := clock (env f (msgs (sched v) i) v))\<rparr>\<rparr>,
            [(i, f, msgs (sched v) i)])"
    using bound active due clears by (rule update_slot_cleared)
  have now: "inactive i (sched (fst (update_slot env i v)))"
    using bound by (simp add: step inactive_def clear_def)
  have "inactive i (sched (fst (update_loop env [Suc i..<N] (fst (update_slot env i v)))))"
    by (rule update_loop_keeps_inactive [OF others _ now]) simp
  with rest have fin: "inactive i (sched v2)" by simp
  have whole: "update env N w = (v2, f0 @ (i, f, msgs (sched v) i) # f2)"
    using reach rest by (simp add: update_split [OF bound] step)
  from step now fin whole show ?thesis by (simp add: inactive_def)
qed

lemma clear_only_example:
  "update stops0 2 two_timers =
     (fst (update stops0 2 two_timers), [(0, 7, 5), (1, 8, 6)]) \<and>
   counts (sched (fst (update stops0 2 two_timers))) 0 = -1 \<and>
   callbacks (sched (fst (update stops0 2 two_timers))) 0 = None \<and>
   counts (sched (fst (update stops0 2 two_timers))) 1 = 0 \<and>
   lastRuns (sched (fst (update stops0 2 two_timers))) 1 = 1100"
proof -
  have reach: "update_loop stops0 [0..<0] two_timers = (two_timers, [])" by simp
  have active: "callbacks (sched two_timers) 0 = Some 7" "0 \<le> counts (sched two_timers) 0"
    "\<not> paused (sched two_timers) 0"
    by (simp_all add: two_timers_def)
  have due: "waits (sched two_timers) 0 \<le> clock two_timers - lastRuns (sched two_timers) 0"
    by (simp add: two_timers_def)
  have m: "msgs (sched two_timers) 0 = 5" by (simp add: two_timers_def)
  have clears: "sched (stops0 7 (msgs (sched two_timers) 0) two_timers) = clear 2 0 (sched two_timers)"
    by (simp add: stops0_def)
  have others: "keeps_inactive stops0 0"
    by (simp add: keeps_inactive_def inactive_def stops0_def clear_def)
  have step: "fst (update_slot stops0 0 two_timers) =
      two_timers\<lparr>sched := (clear 2 0 (sched two_timers))\<lparr>lastRuns := (\<lambda>_. 0)(1 := 1000, 0 := 1100)\<rparr>\<rparr>"
    by (simp add: update_slot_def two_timers_def stops0_def clear_def fun_upd_twist)
  have rest: "update_loop stops0 [Suc 0..<2] (fst (update_slot stops0 0 two_timers)) =
      (two_timers\<lparr>sched := (clear 2 0 (sched two_timers))\<lparr>lastRuns := (\<lambda>_. 0)(1 := 1100, 0 := 1100)\<rparr>\<rparr>,
       [(1, 8, 6)])"
    unfolding step
    by (simp add: upt_rec [of "Suc 0" 2] upt_rec [of 2 2] update_slot_def two_timers_def stops0_def clear_def
          fun_upd_twist)
  from clear_only [OF _ _ reach active due clears others rest]
  show ?thesis by (simp add: m two_timers_def clear_def)
qed

text \<open>
  Beyond clearing: a callback that clears its slot and then adds a timer gets the slot it
  has just cleared. The lemmas below evaluate the scan of \<open>two_timers\<close> for such a
  callback, and the scans of the table that it leaves.
\<close>

lemma add_in_cleared:
  "add 2 (Some 9) 50 c 3 (two_timers\<lparr>sched := clear 2 0 (sched two_timers)\<rparr>) =
      Done [] (0, taken_over c 1100 1000 1100)"
  by (auto simp: add_def findSlot_def findSlot_from.simps [of 2 0] clear_def two_timers_def
        taken_over_def fun_upd_twist fun_eq_iff)

lemma two_timers_slot0:
  assumes "env 7 5 two_timers = taken_over c 1100 1000 1100"
  shows "update_slot env 0 two_timers =
     (taken_over (if 0 < c then (if c - 1 = 0 then -1 else c - 1) else c) 1100 1000 1100, [(0, 7, 5)])"
proof -
  have due: "0 \<le> counts (sched two_timers) 0" "\<not> paused (sched two_timers) 0"
    "callbacks (sched two_timers) 0 = Some 7" "msgs (sched two_timers) 0 = 5"
    "waits (sched two_timers) 0 \<le> clock two_timers - lastRuns (sched two_timers) 0"
    by (simp_all add: two_timers_def)
  show ?thesis
    unfolding update_slot_def using due by (auto simp: assms Let_def taken_over_def fun_eq_iff)
qed

lemma taken_over_slot0:
  assumes "env 9 3 (taken_over c l0 l1 t) = taken_over c l0 l1 t"
  shows "update_slot env 0 (taken_over c l0 l1 t) =
     (if 0 \<le> c \<and> 50 \<le> t - l0
      then (taken_over (if 0 < c then (if c - 1 = 0 then -1 else c - 1) else c) t l1 t, [(0, 9, 3)])
      else (taken_over c l0 l1 t, []))"
proof -
  have f: "counts (sched (taken_over c l0 l1 t)) 0 = c" "\<not> paused (sched (taken_over c l0 l1 t)) 0"
    "callbacks (sched (taken_over c l0 l1 t)) 0 = Some 9" "msgs (sched (taken_over c l0 l1 t)) 0 = 3"
    "waits (sched (taken_over c l0 l1 t)) 0 = 50" "lastRuns (sched (taken_over c l0 l1 t)) 0 = l0"
    "clock (taken_over c l0 l1 t) = t"
    by (simp_all add: taken_over_def)
  show ?thesis
  proof (cases "0 \<le> c \<and> 50 \<le> t - l0")
    case False
    then show ?thesis unfolding update_slot_def by (auto simp: f)
  next
    case True
    then have "update_slot env 0 (taken_over c l0 l1 t) =
     (let w1 = taken_over c l0 l1 t;
          w2 = w1\<lparr>sched := (sched w1)\<lparr>lastRuns := (lastRuns (sched w1))(0 := clock w1)\<rparr>\<rparr>;
          s2 = sched w2;
          w3 = (if counts s2 0 > 0 \<and> callbacks s2 0 \<noteq> None then
                  (let c = counts s2 0 - 1 in
                   w2\<lparr>sched := s2\<lparr>counts := (counts s2)(0 := (if c = 0 then -1 else c))\<rparr>\<rparr>)
                else w2)
      in (w3, [(0, 9, 3)]))"
      unfolding update_slot_def using assms by (simp add: f Let_def)
    also have "\<dots> = (taken_over (if 0 < c then (if c - 1 = 0 then -1 else c - 1) else c) t l1 t,
        [(0, 9, 3)])"
      by (auto simp: taken_over_def Let_def fun_eq_iff)
    finally show ?thesis using True by simp
  qed
qed

lemma taken_over_slot1:
  assumes "env 8 6 (taken_over c l0 l1 t) = taken_over c l0 l1 t"
  shows "update_slot env (Suc 0) (taken_over c l0 l1 t) =
     (if 10 \<le> t - l1 then (taken_over c l0 t t, [(Suc 0, 8, 6)]) else (taken_over c l0 l1 t, []))"
proof -
  have f: "counts (sched (taken_over c l0 l1 t)) (Suc 0) = 0" "\<not> paused (sched (taken_over c l0 l1 t)) (Suc 0)"
    "callbacks (sched (taken_over c l0 l1 t)) (Suc 0) = Some 8" "msgs (sched (taken_over c l0 l1 t)) (Suc 0) = 6"
    "waits (sched (taken_over c l0 l1 t)) (Suc 0) = 10" "lastRuns (sched (taken_over c l0 l1 t)) (Suc 0) = l1"
    "clock (taken_over c l0 l1 t) = t"
    by (simp_all add: taken_over_def)
  show ?thesis
  proof (cases "10 \<le> t - l1")
    case False
    then show ?thesis unfolding update_slot_def by (auto simp: f)
  next
    case True
    then have "update_slot env (Suc 0) (taken_over c l0 l1 t) =
     (let w1 = taken_over c l0 l1 t;
          w2 = w1\<lparr>sched := (sched w1)\<lparr>lastRuns := (lastRuns (sched w1))(Suc 0 := clock w1)\<rparr>\<rparr>
      in (w2, [(Suc 0, 8, 6)]))"
      unfolding update_slot_def using assms by (simp add: f Let_def)
    also have "\<dots> = (taken_over c l0 t t, [(Suc 0, 8, 6)])"
      by (auto simp: taken_over_def Let_def fun_eq_iff)
    finally show ?thesis using True by simp
  qed
qed


lemma taken_over_clock: "(taken_over c l0 l1 t0)\<lparr>clock := t\<rparr> = taken_over c l0 l1 t"
  by (simp add: taken_over_def)

lemma taken_over_scan:
  assumes "\<And>u. env 9 3 u = u" "\<And>u. env 8 6 u = u"
  shows "update env 2 (taken_over c l0 l1 t) =
     (taken_over (if 0 \<le> c \<and> 50 \<le> t - l0 \<and> 0 < c then (if c - 1 = 0 then -1 else c - 1) else c)
        (if 0 \<le> c \<and> 50 \<le> t - l0 then t else l0) (if 10 \<le> t - l1 then t else l1) t,
      (if 0 \<le> c \<and> 50 \<le> t - l0 then [(0, 9, 3)] else []) @
      (if 10 \<le> t - l1 then [(1, 8, 6)] else []))"
  unfolding update_def upt_rec [of 0 2] upt_rec [of "Suc 0" 2] upt_rec [of 2 2]
  by (simp add: taken_over_slot0 [of env, OF assms(1)] taken_over_slot1 [of env, OF assms(2)])

lemma two_timers_scan:
  assumes "env 7 5 two_timers = taken_over c 1100 1000 1100" "\<And>u. env 8 6 u = u"
  shows "update env 2 two_timers =
     (taken_over (if 0 < c then (if c - 1 = 0 then -1 else c - 1) else c) 1100 1100 1100,
      [(0, 7, 5), (1, 8, 6)])"
  unfolding update_def upt_rec [of 0 2] upt_rec [of "Suc 0" 2] upt_rec [of 2 2]
  by (simp add: two_timers_slot0 [of env, OF assms(1)] taken_over_slot1 [of env, OF assms(2)]
        word_le_nat_alt)

lemma rearms0_calls:
  "rearms0 7 5 two_timers = taken_over 1 1100 1000 1100" "rearms0 9 3 u = u" "rearms0 8 6 u = u"
  by (simp_all add: rearms0_def add_in_cleared)

lemma reschedules0_calls:
  "reschedules0 7 5 two_timers = taken_over 3 1100 1000 1100" "reschedules0 9 3 u = u"
  "reschedules0 8 6 u = u"
  by (simp_all add: reschedules0_def add_in_cleared)

lemma rearms0_scan: "update rearms0 2 two_timers = (taken_over (-1) 1100 1100 1100, [(0, 7, 5), (1, 8, 6)])"
  using two_timers_scan [of rearms0 1, OF rearms0_calls(1) rearms0_calls(3)] by simp

lemma reschedules0_scan:
  "update reschedules0 2 two_timers = (taken_over 2 1100 1100 1100, [(0, 7, 5), (1, 8, 6)])"
  using two_timers_scan [of reschedules0 3, OF reschedules0_calls(1) reschedules0_calls(3)] by simp

lemma rearms0_later:
  "scans rearms0 2 (taken_over (-1) 1100 1100 1100) [1150, 1200, 1250] =
     (taken_over (-1) 1100 1250 1250, [(1, 8, 6), (1, 8, 6), (1, 8, 6)])"
  by (simp add: taken_over_clock taken_over_scan [of rearms0, OF rearms0_calls(2) rearms0_calls(3)]
        word_le_nat_alt)

lemma reschedules0_later:
  "scans reschedules0 2 (taken_over 2 1100 1100 1100) [1150, 1200, 1250, 1300] =
     (taken_over (-1) 1200 1300 1300,
      [(0, 9, 3), (1, 8, 6), (0, 9, 3), (1, 8, 6), (1, 8, 6), (1, 8, 6)])"
  by (simp add: taken_over_clock taken_over_scan [of reschedules0, OF reschedules0_calls(2) reschedules0_calls(3)]
        word_le_nat_alt)

text \<open>
  Claim C3: a timer added with count 1 fires its callback exactly once, on the first
  \<^verbatim>\<open>update\<close> that finds the period elapsed, and is then deactivated. The code does not
  do so for a one-shot timer added by a callback that has just stopped its own timer. In
  \<open>rearms0\<close> function 7, the callback of slot 0, calls \<^verbatim>\<open>clear(0)\<close> and then
  \<^verbatim>\<open>add(f9, 50, 1, 3)\<close>. \<^verbatim>\<open>add\<close> hands out slot 0 again, and the bookkeeping after the
  callback (``check callback still valid'') finds a positive count and a callback in
  slot 0 and decrements the count of the new timer, from 1 to 0 and so to \<open>-1\<close>. The
  scan at 1100 invokes functions 7 and 8 and leaves slot 0 with function 9 and count
  \<open>-1\<close>; the scans at 1150, 1200 and 1250 invoke function 8 only: the one-shot timer is
  deactivated without having fired.
\<close>

theorem one_shot_added_in_callback:
  "snd (update rearms0 2 two_timers) = [(0, 7, 5), (1, 8, 6)] \<and>
   slot 0 (sched (fst (update rearms0 2 two_timers))) = (Some 9, -1, 50, 1100, 3, False) \<and>
   snd (scans rearms0 2 (fst (update rearms0 2 two_timers)) [1150, 1200, 1250]) =
     [(1, 8, 6), (1, 8, 6), (1, 8, 6)] \<and>
   fires_of 0 (snd (scans rearms0 2 (fst (update rearms0 2 two_timers)) [1150, 1200, 1250])) = []"
  unfolding rearms0_scan fst_conv snd_conv rearms0_later fires_of_def
  by (simp add: slot_def taken_over_def)

text \<open>
  Claim C6: when the callback fired for slot \<open>i\<close> clears slot \<open>i\<close>, the slot is inactive
  after the scan (count \<open>-1\<close>, callback reference cleared) and the bookkeeping after the
  callback has not decremented its count. The code does not keep this when the callback
  reschedules, that is, clears its slot and adds a timer. In \<open>reschedules0\<close> function 7,
  the callback of slot 0, calls \<^verbatim>\<open>clear(0)\<close> and then \<^verbatim>\<open>add(f9, 50, 3, 3)\<close>, which takes
  slot 0 again. The bookkeeping tells a cleared slot by its count and its null callback,
  finds neither, and decrements the count of the new timer from 3 to 2 before function 9
  has run: in the scans that follow the timer fires twice (at 1150 and 1200), not three
  times, and it ends with count \<open>-1\<close> and its callback reference still in the table. The
  scan itself goes on: slot 1 is processed in the same scan.
\<close>

theorem reschedule_inside_callback:
  "snd (update reschedules0 2 two_timers) = [(0, 7, 5), (1, 8, 6)] \<and>
   slot 0 (sched (fst (update reschedules0 2 two_timers))) = (Some 9, 2, 50, 1100, 3, False) \<and>
   fires_of 0 (snd (scans reschedules0 2 (fst (update reschedules0 2 two_timers))
     [1150, 1200, 1250, 1300])) = [(0, 9, 3), (0, 9, 3)] \<and>
   slot 0 (sched (fst (scans reschedules0 2 (fst (update reschedules0 2 two_timers))
     [1150, 1200, 1250, 1300]))) = (Some 9, -1, 50, 1200, 3, False)"
  unfolding reschedules0_scan fst_conv snd_conv reschedules0_later fires_of_def
  by (simp add: slot_def taken_over_def)

section \<open>Button: the lock-out debounce\<close>

lemma checkForPress_commit:
  assumes "oldState (fst (checkForPress D now raw b)) \<noteq> oldState b"
  shows "D \<le> now - lastDebounceTime b \<and> oldState (fst (checkForPress D now raw b)) = raw \<and>
         lastDebounceTime (fst (checkForPress D now raw b)) = now"
  using assms by (simp add: checkForPress_def Let_def split: if_splits)

lemma checkForPress_no_commit:
  assumes "oldState (fst (checkForPress D now raw b)) = oldState b"
  shows "lastDebounceTime (fst (checkForPress D now raw b)) = lastDebounceTime b \<or>
         oldState b = raw"
  using assms by (simp add: checkForPress_def Let_def split: if_splits)

lemma checkForPress_stamp:
  "lastDebounceTime (fst (checkForPress D now raw b)) =
     (if oldState (fst (checkForPress D now raw b)) \<noteq> oldState b then now else lastDebounceTime b)"
  by (simp add: checkForPress_def Let_def)

lemma commits_spaced: "spaced D (lastDebounceTime b) (commit_times D b ss)"
proof (induction ss arbitrary: b)
  case Nil
  show ?case by simp
next
  case (Cons x ss)
  obtain now raw where x: "x = (now, raw)" by (cases x)
  let ?b = "fst (checkForPress D now raw b)"
  show ?case
  proof (cases "oldState ?b \<noteq> oldState b")
    case True
    from checkForPress_commit [OF True] Cons.IH [of ?b] True show ?thesis
      by (simp add: x Let_def)
  next
    case False
    with checkForPress_stamp [of D now raw b] Cons.IH [of ?b] show ?thesis
      by (simp add: x Let_def)
  qed
qed

lemma checkForPress_locked:
  "now - lastDebounceTime b < D \<Longrightarrow>
     oldState (fst (checkForPress D now raw b)) = oldState b \<and>
     Button.state (fst (checkForPress D now raw b)) = raw \<and>
     snd (checkForPress D now raw b) = []"
  by (simp add: checkForPress_def Let_def not_le [symmetric])

lemma checkForPress_open:
  "D \<le> now - lastDebounceTime b \<Longrightarrow> oldState (fst (checkForPress D now raw b)) = raw"
  by (simp add: checkForPress_def Let_def)

lemma checkForPress_same:
  "oldState b = raw \<Longrightarrow> oldState (fst (checkForPress D now raw b)) = raw \<and>
     snd (checkForPress D now raw b) = []"
  by (simp add: checkForPress_def Let_def)

lemma polls_settled:
  "\<forall>s \<in> set ss. snd s = l \<Longrightarrow> oldState b = l \<Longrightarrow> oldState (polls D b ss) = l"
proof (induction ss arbitrary: b)
  case Nil
  then show ?case by simp
next
  case (Cons x ss)
  obtain now raw where x: "x = (now, raw)" by (cases x)
  with Cons.prems have "raw = l" by simp
  with Cons.prems(2) checkForPress_same [of b raw D now]
  have "oldState (fst (checkForPress D now raw b)) = l" by simp
  from Cons.IH [OF _ this] Cons.prems(1) show ?case by (simp add: x)
qed

text \<open>
  Claim C2, as the code has it. The button commits a differing sample at once, provided
  at least the debounce window \<open>D\<close> has passed since the previous commit; it does not
  wait for the new level to be stable. What holds for every run of polls: two
  consecutive changes of the committed level are at least \<open>D\<close> apart (the first at least
  \<open>D\<close> after the initial timestamp); a poll made less than \<open>D\<close> after the last commit
  records the raw level in \<open>state\<close> but leaves the committed level alone and raises no
  event; a change of the committed level happens only at a poll at least \<open>D\<close> after the
  last commit, takes the level just read and stamps the commit with the clock reading; a
  poll at least \<open>D\<close> after the last commit always leaves the committed level equal to the
  level read, and once the committed level equals the settled level it stays there.
\<close>

theorem debounce_lockout:
  "spaced D (lastDebounceTime b) (commit_times D b ss) \<and>
   (now - lastDebounceTime b < D \<longrightarrow>
      oldState (fst (checkForPress D now raw b)) = oldState b \<and>
      Button.state (fst (checkForPress D now raw b)) = raw \<and>
      snd (checkForPress D now raw b) = []) \<and>
   (oldState (fst (checkForPress D now raw b)) \<noteq> oldState b \<longrightarrow>
      D \<le> now - lastDebounceTime b \<and> oldState (fst (checkForPress D now raw b)) = raw \<and>
      lastDebounceTime (fst (checkForPress D now raw b)) = now) \<and>
   (D \<le> now - lastDebounceTime b \<longrightarrow> oldState (fst (checkForPress D now raw b)) = raw) \<and>
   ((\<forall>s \<in> set ss. snd s = l) \<and> oldState b = l \<longrightarrow> oldState (polls D b ss) = l)"
  using commits_spaced [of D b ss] checkForPress_locked [of now b D raw]
    checkForPress_commit [of D now raw b] checkForPress_open [of D now b raw]
    polls_settled [of ss l b D]
  by blast

theorem debounce_lockout_witness:
  "commit_times 50 released_button [(1000, HIGH), (1001, LOW), (1002, HIGH), (1060, HIGH)] = [1001, 1060] \<and>
   spaced 50 (lastDebounceTime released_button)
     (commit_times 50 released_button [(1000, HIGH), (1001, LOW), (1002, HIGH), (1060, HIGH)]) \<and>
   checkForPress 50 1001 LOW released_button = (pressed_button, [Pressed]) \<and>
   oldState (fst (checkForPress 50 1002 HIGH pressed_button)) = LOW \<and>
   Button.state (fst (checkForPress 50 1002 HIGH pressed_button)) = HIGH \<and>
   oldState (fst (checkForPress 50 1060 HIGH pressed_button)) = HIGH \<and>
   oldState (polls 50 released_button [(1000, HIGH), (1002, HIGH)]) = HIGH"
proof -
  have step: "checkForPress 50 1001 LOW released_button = (pressed_button, [Pressed])"
    by (simp add: checkForPress_def released_button_def pressed_button_def Let_def)
  have times: "commit_times 50 released_button [(1000, HIGH), (1001, LOW), (1002, HIGH), (1060, HIGH)] = [1001, 1060]"
    by (simp add: checkForPress_def released_button_def Let_def word_le_nat_alt)
  have changed: "oldState (fst (checkForPress 50 1001 LOW released_button)) \<noteq> oldState released_button"
    by (simp add: step) (simp add: released_button_def pressed_button_def)
  have locked: "1002 - lastDebounceTime pressed_button < (50 :: ulong)"
    by (simp add: pressed_button_def)
  have opened: "(50 :: ulong) \<le> 1060 - lastDebounceTime pressed_button"
    by (simp add: pressed_button_def)
  have settled: "(\<forall>s \<in> set [(1000 :: ulong, HIGH), (1002, HIGH)]. snd s = HIGH) \<and> oldState released_button = HIGH"
    by (simp add: released_button_def)
  from debounce_lockout [of 50 released_button "[(1000, HIGH), (1001, LOW), (1002, HIGH), (1060, HIGH)]"
      1001 LOW HIGH] changed
  have a: "spaced 50 (lastDebounceTime released_button)
     (commit_times 50 released_button [(1000, HIGH), (1001, LOW), (1002, HIGH), (1060, HIGH)])"
    by blast
  from debounce_lockout [of 50 pressed_button "[]" 1002 HIGH HIGH] locked
  have b: "oldState (fst (checkForPress 50 1002 HIGH pressed_button)) = LOW \<and>
           Button.state (fst (checkForPress 50 1002 HIGH pressed_button)) = HIGH"
    by (simp add: pressed_button_def)
  from debounce_lockout [of 50 pressed_button "[]" 1060 HIGH HIGH] opened
  have c: "oldState (fst (checkForPress 50 1060 HIGH pressed_button)) = HIGH"
    by blast
  from debounce_lockout [of 50 released_button "[(1000, HIGH), (1002, HIGH)]" 1001 LOW HIGH] settled
  have d: "oldState (polls 50 released_button [(1000, HIGH), (1002, HIGH)]) = HIGH"
    by blast
  from step times a b c d show ?thesis by simp
qed

text \<open>
  Claim C2 as worded, "only after the raw level has been stable for the window", fails: a released
  button polled at 1000 (high) and 1001 (low) commits the low level at 1001, one
  millisecond after the pin still showed high.
\<close>

theorem debounce_counterexample:
  "\<not> commits_when_stable 50 released_button [] [(1000, HIGH), (1001, LOW), (1002, HIGH)]"
  by (simp add: checkForPress_def released_button_def Let_def)

section \<open>AnalogSensor: quantised hysteresis and zones\<close>

subsection \<open>Rounding to the grid\<close>



subsection \<open>The steps of a completed poll\<close>

lemma classify_keeps:
  "currentReportedValue (fst (classify s)) = currentReportedValue s \<and>
   hiResValue (fst (classify s)) = hiResValue s \<and> changes (snd (classify s)) = []"
  by (simp add: classify_def Let_def)

lemma report_zones: "zone_changes (snd (report d s)) = []"
  by (simp add: report_def Let_def)



lemma zone_changes_append: "zone_changes (xs @ ys) = zone_changes xs @ zone_changes ys"
  by (induction xs rule: zone_changes.induct) simp_all

lemma smooth_config:
  "quantizeStep (smooth raw s) = quantizeStep s \<and> hysteresis_amount (smooth raw s) = hysteresis_amount s \<and>
   outputMin (smooth raw s) = outputMin s \<and> outputMax (smooth raw s) = outputMax s \<and>
   currentReportedValue (smooth raw s) = currentReportedValue s \<and>
   hasChangeFunc (smooth raw s) = hasChangeFunc s \<and> avgSamples (smooth raw s) = avgSamples s \<and>
   delta (smooth raw s) = delta s"
  by (simp add: smooth_def average_def)

lemma sensor_update_complete:
  assumes "hasInitialRead s" "avgSamples s \<le> avgCount (smooth raw s)"
  shows "sensor_update raw s =
     (let s2 = (smooth raw s)\<lparr>hiResValue := hiRes_of (smooth raw s)\<rparr>;
          r = report (stabilize s2 (hiRes_of (smooth raw s))) s2;
          c = classify (fst r)
      in ((fst c)\<lparr>accumulatedSum := 0, avgCount := 0\<rparr>, snd r @ snd c))"
  using assms by (simp add: sensor_update_def Let_def smooth_config split_beta)


















subsection \<open>Zones\<close>

lemma findZone_from_find:
  "findZone_from i s v =
     (case find (inside v) (map (defined_zones s) [i..<unat (zone_count s)]) of
        None \<Rightarrow> NO_ZONE | Some z \<Rightarrow> zone_id z)"
proof (induction i s v rule: findZone_from.induct)
  case (1 i s v)
  show ?case
  proof (cases "i < unat (zone_count s)")
    case False
    then show ?thesis by (simp add: findZone_from.simps [of i s v])
  next
    case True
    then have cons: "[i..<unat (zone_count s)] = i # [Suc i..<unat (zone_count s)]"
      by (rule upt_conv_Cons)
    show ?thesis
    proof (cases "inside v (defined_zones s i)")
      case yes: True
      with True show ?thesis
        by (simp add: findZone_from.simps [of i s v] cons inside_def)
    next
      case no: False
      then have "\<not> (v \<ge> min_val (defined_zones s i) \<and> v \<le> max_val (defined_zones s i))"
        by (simp add: inside_def)
      from "1.IH" [OF True this] True no show ?thesis
        by (auto simp: findZone_from.simps [of i s v] cons inside_def)
    qed
  qed
qed

lemma findZoneForValue_first:
  "findZoneForValue s v =
     (case find (inside v) (zones_of s) of None \<Rightarrow> NO_ZONE | Some z \<Rightarrow> zone_id z)"
  by (simp add: findZoneForValue_def findZone_from_find zones_of_def)

lemma findZoneForValue_config:
  "defined_zones s' = defined_zones s \<Longrightarrow> zone_count s' = zone_count s \<Longrightarrow>
     findZoneForValue s' v = findZoneForValue s v"
  by (simp add: findZoneForValue_first zones_of_def)

lemma classify_zone:
  assumes "0 < zone_count s"
  shows "currentZoneID (fst (classify s)) = findZoneForValue s (currentReportedValue s) \<and>
         previousZoneID (fst (classify s)) = findZoneForValue s (currentReportedValue s) \<and>
         zone_changes (snd (classify s)) =
           (if findZoneForValue s (currentReportedValue s) \<noteq> previousZoneID s \<and> hasZoneChangeFunc s
            then [findZoneForValue s (currentReportedValue s)] else [])"
  using assms by (simp add: classify_def Let_def)

lemma classify_config:
  "defined_zones (fst (classify s)) = defined_zones s \<and> zone_count (fst (classify s)) = zone_count s \<and>
   hasZoneChangeFunc (fst (classify s)) = hasZoneChangeFunc s \<and>
   hasInitialRead (fst (classify s)) = hasInitialRead s"
  by (simp add: classify_def Let_def)

lemma report_config:
  "defined_zones (fst (report d s)) = defined_zones s \<and> zone_count (fst (report d s)) = zone_count s \<and>
   hasZoneChangeFunc (fst (report d s)) = hasZoneChangeFunc s \<and>
   previousZoneID (fst (report d s)) = previousZoneID s \<and>
   hasInitialRead (fst (report d s)) = hasInitialRead s"
  by (simp add: report_def Let_def)

lemma smooth_zone_config:
  "defined_zones (smooth raw s) = defined_zones s \<and> zone_count (smooth raw s) = zone_count s \<and>
   hasZoneChangeFunc (smooth raw s) = hasZoneChangeFunc s \<and>
   previousZoneID (smooth raw s) = previousZoneID s \<and>
   hasInitialRead (smooth raw s) = hasInitialRead s"
  by (simp add: smooth_def average_def)

lemma sensor_update_zone:
  assumes "hasInitialRead s" "avgSamples s \<le> avgCount (smooth raw s)" "0 < zone_count s"
  shows "currentZoneID (fst (sensor_update raw s)) =
           findZoneForValue s (currentReportedValue (fst (sensor_update raw s))) \<and>
         previousZoneID (fst (sensor_update raw s)) = currentZoneID (fst (sensor_update raw s)) \<and>
         zone_changes (snd (sensor_update raw s)) =
           (if currentZoneID (fst (sensor_update raw s)) \<noteq> previousZoneID s \<and> hasZoneChangeFunc s
            then [currentZoneID (fst (sensor_update raw s))] else []) \<and>
         defined_zones (fst (sensor_update raw s)) = defined_zones s \<and>
         zone_count (fst (sensor_update raw s)) = zone_count s \<and>
         hasInitialRead (fst (sensor_update raw s))"
proof -
  let ?s2 = "(smooth raw s)\<lparr>hiResValue := hiRes_of (smooth raw s)\<rparr>"
  let ?r = "report (stabilize ?s2 (hiRes_of (smooth raw s))) ?s2"
  have cfg: "defined_zones (fst ?r) = defined_zones s" "zone_count (fst ?r) = zone_count s"
    "hasZoneChangeFunc (fst ?r) = hasZoneChangeFunc s" "previousZoneID (fst ?r) = previousZoneID s"
    "hasInitialRead (fst ?r)"
    using assms(1) by (simp_all add: report_config smooth_zone_config)
  from assms(3) cfg(2) have z: "0 < zone_count (fst ?r)" by simp
  have fz: "findZoneForValue (fst ?r) v = findZoneForValue s v" for v
    by (rule findZoneForValue_config) (simp_all add: cfg)
  show ?thesis
    by (simp add: sensor_update_complete [OF assms(1,2)] Let_def classify_zone [OF z]
          classify_keeps classify_config report_zones zone_changes_append cfg fz)
qed

lemma sensor_update_idle:
  assumes "hasInitialRead s" "\<not> avgSamples s \<le> avgCount (smooth raw s)"
  shows "snd (sensor_update raw s) = []"
  using assms by (simp add: sensor_update_def Let_def smooth_config)

text \<open>
  Claim C7. A poll after the initial read that completes the smoothing window, with at
  least one zone defined: the classified zone is the id of the first zone, in definition
  order, whose inclusive range contains the reported value, and the sentinel 255 if there
  is none; it is stored as the previous zone; the zone-change callback, when one is
  registered, is called once with it if it differs from the zone classified before, and
  not at all otherwise. A further poll that leaves the reported value as it is never
  calls the zone-change callback.
\<close>

theorem zone_classification:
  assumes started: "hasInitialRead s"
    and window: "avgSamples s \<le> avgCount (smooth raw s)"
    and zones: "0 < zone_count s"
    and poll: "sensor_update raw s = (s', evs)"
    and again: "sensor_update raw2 s' = (s'', evs2)"
    and same: "currentReportedValue s'' = currentReportedValue s'"
  shows "currentZoneID s' =
           (case find (inside (currentReportedValue s')) (zones_of s) of
              None \<Rightarrow> NO_ZONE | Some z \<Rightarrow> zone_id z) \<and>
         previousZoneID s' = currentZoneID s' \<and>
         zone_changes evs =
           (if currentZoneID s' \<noteq> previousZoneID s \<and> hasZoneChangeFunc s then [currentZoneID s'] else []) \<and>
         zone_changes evs2 = []"
proof -
  from sensor_update_zone [OF started window zones] poll
  have first: "currentZoneID s' = findZoneForValue s (currentReportedValue s')"
    "previousZoneID s' = currentZoneID s'"
    "zone_changes evs =
       (if currentZoneID s' \<noteq> previousZoneID s \<and> hasZoneChangeFunc s then [currentZoneID s'] else [])"
    "defined_zones s' = defined_zones s" "zone_count s' = zone_count s" "hasInitialRead s'"
    by simp_all
  have second: "zone_changes evs2 = []"
  proof (cases "avgSamples s' \<le> avgCount (smooth raw2 s')")
    case False
    from sensor_update_idle [OF first(6) False] again show ?thesis by simp
  next
    case True
    from zones first(5) have z: "0 < zone_count s'" by simp
    from sensor_update_zone [OF first(6) True z] again
    have "currentZoneID s'' = findZoneForValue s' (currentReportedValue s'')"
      "zone_changes evs2 =
         (if currentZoneID s'' \<noteq> previousZoneID s' \<and> hasZoneChangeFunc s' then [currentZoneID s''] else [])"
      by simp_all
    moreover have "findZoneForValue s' (currentReportedValue s'') = previousZoneID s'"
      unfolding same first(2) first(1)
      by (rule findZoneForValue_config) (simp_all add: first)
    ultimately show ?thesis by simp
  qed
  from first second show ?thesis by (simp add: findZoneForValue_first)
qed

lemma pot_zone_lookup: "findZoneForValue pot 40 = 2" "findZoneForValue pot 20 = 1"
  by (simp_all add: findZoneForValue_def findZone_from.simps [of 0] findZone_from.simps [of "Suc 0"]
        pot_def)

lemma pot_to_40: "sensor_update 400 pot = (pot40, [Changed 40, ZoneChanged 2])"
  by (simp add: sensor_update_def smooth_def hiRes_of_def arduino_map_def tdiv_def stabilize_def
        V_potential_def round_quot_def report_def classify_def Let_def pot40_def
        findZoneForValue_def findZone_from.simps [of 0] findZone_from.simps [of "Suc 0"] pot_def)

lemma pot_stays_40: "currentReportedValue (fst (sensor_update 400 pot40)) = 40"
  by (simp add: sensor_update_def smooth_def hiRes_of_def arduino_map_def tdiv_def stabilize_def
        V_potential_def round_quot_def report_def classify_def Let_def pot40_def
        findZoneForValue_def findZone_from.simps [of 0] findZone_from.simps [of "Suc 0"] pot_def)

theorem zone_classification_witness:
  "sensor_update 400 pot = (pot40, [Changed 40, ZoneChanged 2]) \<and>
   currentZoneID pot40 = 2 \<and> previousZoneID pot = 1 \<and>
   find (inside 40) (zones_of pot) = Some \<lparr>zone_id = 2, min_val = 20, max_val = 100\<rparr> \<and>
   zone_changes (snd (sensor_update 400 pot40)) = []"
proof -
  have started: "hasInitialRead pot" and zones: "0 < zone_count pot"
    by (simp_all add: pot_def)
  have window: "avgSamples pot \<le> avgCount (smooth 400 pot)"
    by (simp add: smooth_def pot_def)
  have P: "x = (fst x, snd x)" for x :: "AnalogSensor \<times> sensor_event list" by simp
  have same: "currentReportedValue (fst (sensor_update 400 pot40)) = currentReportedValue pot40"
    by (simp add: pot_stays_40) (simp add: pot40_def)
  have z: "find (inside 40) (zones_of pot) = Some \<lparr>zone_id = 2, min_val = 20, max_val = 100\<rparr>"
  proof -
    have "unat (zone_count pot) = 2" by (simp add: pot_def)
    then show ?thesis
      by (simp add: zones_of_def inside_def upt_rec [of 0 2] upt_rec [of "Suc 0" 2] upt_rec [of 2 2])
        (simp add: pot_def)
  qed
  from zone_classification [OF started window zones pot_to_40 P same]
  have "zone_changes (snd (sensor_update 400 pot40)) = []" by simp
  with pot_to_40 z show ?thesis by (simp add: pot40_def pot_def)
qed

section \<open>Initialising twice\<close>

text \<open>
  Claim C8, as the code has it. \<^verbatim>\<open>init\<close> on an initialised Button or AnalogSensor prints
  one warning line on the serial port and returns; the object is left unchanged and the
  sketch runs on.
\<close>

theorem reinit_ignored:
  "(Button.initialized b \<longrightarrow>
      button_init newPin newMode raw b = Done [''WARNING: Button already initialized. Ignoring.''] b) \<and>
   (AnalogSensor.initialized s \<longrightarrow>
      sensor_init analogPin s = Done [''WARNING: AnalogSensor already initialized. Ignoring.''] s)"
  by (simp add: button_init_def sensor_init_def)

theorem reinit_ignored_witness:
  "Button.initialized released_button \<and>
   button_init 7 BUTTON_PRESS_HIGH LOW released_button =
     Done [''WARNING: Button already initialized. Ignoring.''] released_button \<and>
   AnalogSensor.initialized pot \<and>
   sensor_init 5 pot = Done [''WARNING: AnalogSensor already initialized. Ignoring.''] pot"
proof -
  have b: "Button.initialized released_button" by (simp add: released_button_def)
  have s: "AnalogSensor.initialized pot" by (simp add: pot_def)
  from reinit_ignored [of released_button 7 BUTTON_PRESS_HIGH LOW pot 5] b s
  show ?thesis by simp
qed

text \<open>
  Claim C8 as worded fails: a second \<^verbatim>\<open>init\<close> does not halt, neither on a Button nor on an
  AnalogSensor.
\<close>

theorem reinit_counterexample:
  "\<not> halts (button_init 2 BUTTON_INPUT_PULLUP HIGH released_button) \<and> \<not> halts (sensor_init 0 pot)"
  by (simp add: button_init_def sensor_init_def released_button_def pot_def)

section \<open>LED: fades, pulses and blinks\<close>

text \<open>
  Claim C10. \<^verbatim>\<open>fadeOut\<close> on an LED whose state is \<^verbatim>\<open>LOW\<close> returns the LED as it was: no
  fade is started, no pin is written, and level, state and animation fields are unchanged.
\<close>

theorem fadeOut_when_off:
  "state led = LOW \<Longrightarrow> fadeOut now duration led = led"
  by (simp add: fadeOut_def)

theorem fadeOut_when_off_witness:
  "state (lamp :: 16 led) = LOW \<and> fadeOut 1000 500 (lamp :: 16 led) = lamp"
proof -
  have off: "state (lamp :: 16 led) = LOW" by (simp add: lamp_def)
  from fadeOut_when_off [OF off, of 1000 500] off show ?thesis by simp
qed

lemma fadeOut_when_on:
  "pulsing (fadeOut 1000 500 (lamp_on :: 16 led)) \<and>
   pulseDuration (fadeOut 1000 500 (lamp_on :: 16 led)) = 500"
  by (simp add: fadeOut_def initFade_def setLevel_def setState_def clearPulse_def clearBlink_def
        lamp_on_def lamp_def Let_def)

lemma setState_fields:
  "blinkDelay (setState v led) = blinkDelay led" "pulseDuration (setState v led) = pulseDuration led"
  "blinking (setState v led) = blinking led" "blinkCount (setState v led) = blinkCount led"
  "blinkMax (setState v led) = blinkMax led" "lastBlinkTime (setState v led) = lastBlinkTime led"
  "pulsing (setState v led) = pulsing led" "state (setState v led) = v"
  "level (setState v led) = level led" "pulseCount (setState v led) = pulseCount led"
  "pulseMax (setState v led) = pulseMax led" "isDimmable (setState v led) = isDimmable led"
  "isRGB (setState v led) = isRGB led" "pulseUp (setState v led) = pulseUp led"
  by (simp_all add: setState_def Let_def)

lemma setLevel_fields:
  "blinkDelay (setLevel v led) = blinkDelay led" "pulseDuration (setLevel v led) = pulseDuration led"
  "blinking (setLevel v led) = blinking led" "pulsing (setLevel v led) = pulsing led"
  "state (setLevel v led) = state led" "level (setLevel v led) = v"
  "isDimmable (setLevel v led)"
  by (simp_all add: setLevel_def Let_def setState_fields)

lemma initPulse_duration: "pulseDuration (initPulse now pDelay count low high led) =
    (if pDelay < 2 then 1 else pDelay div 2)"
  by (simp add: initPulse_def Let_def setState_fields setLevel_fields)

lemma initFade_duration: "pulseDuration (initFade now duration start end led) =
    (if duration < 1 then 1 else duration)"
  by (simp add: initFade_def Let_def setState_fields setLevel_fields)

lemma initBlink_fields:
  "blinkDelay (initBlink now bDelay count led) = (if bDelay < 1 then 1 else bDelay) div 2"
  "blinking (initBlink now bDelay count led)"
  "lastBlinkTime (initBlink now bDelay count led) = now"
  "blinkCount (initBlink now bDelay count led) = 0"
  "blinkMax (initBlink now bDelay count led) =
     (if count > 0 then (if state led = HIGH then count * 2 - 1 else count * 2) else 0)"
  "state (initBlink now bDelay count led) = state led"
  by (simp_all add: initBlink_def Let_def clearPulse_def)

text \<open>
  Claim C9 at \<^verbatim>\<open>blink(0)\<close> and \<^verbatim>\<open>blink(1)\<close>. \<^verbatim>\<open>initBlink\<close> raises the delay to 1 and then
  halves it, so the stored \<open>blinkDelay\<close> is 0; \<^verbatim>\<open>runBlink\<close> compares the elapsed time
  with it, and the LED toggles at every poll, here three times at one clock reading.
  \<^verbatim>\<open>initPulse\<close> raises its delay to 2 before halving, and \<^verbatim>\<open>initFade\<close> does not halve:
  their stored duration is positive.
\<close>

theorem blink_delay_not_clamped:
  "blinkDelay (initBlink now 0 count led) = 0 \<and> blinkDelay (initBlink now 1 count led) = 0 \<and>
   toggles (initBlink 1000 0 0 (lamp :: 16 led)) [1000, 1000, 1000] = 3 \<and>
   0 < pulseDuration (initPulse now 0 count low high led) \<and>
   0 < pulseDuration (initFade now 0 start end led)"
proof -
  have a: "blinkDelay (initBlink now 0 count led) = 0" "blinkDelay (initBlink now 1 count led) = 0"
    by (simp_all add: initBlink_fields)
  have b: "toggles (initBlink 1000 0 0 (lamp :: 16 led)) [1000, 1000, 1000] = 3"
    by (simp add: initBlink_def runBlink_def flip_def setState_def clearPulse_def lamp_def Let_def)
  have c: "0 < pulseDuration (initPulse now 0 count low high led)"
    "0 < pulseDuration (initFade now 0 start end led)"
    by (simp_all add: initPulse_duration initFade_duration)
  from a b c show ?thesis by simp
qed

lemma pulse_once_eval:
  "pulse_once = lamp\<lparr>isDimmable := True, state := HIGH, level := 105, pulseCount := 0, pulseMax := 1,
     pulseLow := 10, pulseHigh := 200, pulseDuration := 50, pulseUp := False, lastPulseTime := 50,
     pulsing := True, writes := [AnalogWrite 9 10, AnalogWrite 9 200, AnalogWrite 9 105]\<rparr>"
  by (simp add: pulse_once_def initPulse_def runPulse_def pulsed_enough_def setLevel_def
        setState_def clearPulse_def clearBlink_def lamp_def Let_def)

text \<open>
  Claim C4 as worded fails: a pulse of one cycle between 10 and 200 with period 100,
  started at 0 and polled at 50 and 75, shows level 105; the poll at 100 completes it,
  sets the state to \<^verbatim>\<open>LOW\<close> and writes 0 to the pin.
\<close>

theorem pulse_completion_counterexample:
  "pulsing pulse_once \<and> state pulse_once = HIGH \<and> level pulse_once = 105 \<and>
   last (writes pulse_once) = AnalogWrite 9 105 \<and>
   \<not> pulsing (runPulse 100 pulse_once) \<and> state (runPulse 100 pulse_once) = LOW \<and>
   last (writes (runPulse 100 pulse_once)) = AnalogWrite 9 0"
  by (simp add: pulse_once_eval)
     (simp add: runPulse_def pulsed_enough_def setState_def clearPulse_def lamp_def Let_def)

lemma clearPulse_fields:
  "state (clearPulse led) = state led" "level (clearPulse led) = level led"
  "writes (clearPulse led) = writes led" "\<not> pulsing (clearPulse led)"
  "isRGB (clearPulse led) = isRGB led" "isDimmable (clearPulse led) = isDimmable led"
  by (simp_all add: clearPulse_def)

lemma setState_pulse_fields:
  "pulseLow (setState v led) = pulseLow led" "pulseHigh (setState v led) = pulseHigh led"
  "lastPulseTime (setState v led) = lastPulseTime led"
  by (simp_all add: setState_def Let_def)

lemma runPulse_last_cycle:
  assumes "pulsing led" "\<not> pulseUp led" "0 < pulseMax led" "pulseMax led \<le> pulseCount led + 1"
    and "pulseDuration led \<le> now - lastPulseTime led"
  shows "runPulse now led =
     setState LOW (clearPulse (led\<lparr>lastPulseTime := now, pulseUp := True,
                                   pulseCount := pulseCount led + 1\<rparr>))"
  using assms by (simp add: runPulse_def pulsed_enough_def Let_def)

lemma runPulse_one_way_top:
  assumes "pulsing led" "pulseUp led" "pulseMax led = 0"
    and "pulseDuration led \<le> now - lastPulseTime led"
  shows "runPulse now led = clearPulse (setState HIGH (led\<lparr>level := pulseHigh led\<rparr>))"
  using assms by (simp add: runPulse_def Let_def setState_fields)

text \<open>
  Claim C4, as the code has it. When the descending ramp of the last cycle of a finite
  pulse is over, \<^verbatim>\<open>runPulse\<close> clears the animation and switches the output off: the state
  is \<^verbatim>\<open>LOW\<close> and the pins are written as \<^verbatim>\<open>setState(LOW)\<close> writes them, while the stored
  level stays where the ramp left it. A pulse started with count 0 stops at the top of its
  first ascending ramp and leaves the output on at \<open>pulseHigh\<close>.
\<close>

theorem pulse_completion:
  "(pulsing led \<and> \<not> pulseUp led \<and> 0 < pulseMax led \<and> pulseMax led \<le> pulseCount led + 1 \<and>
    pulseDuration led \<le> now - lastPulseTime led \<longrightarrow>
      state (runPulse now led) = LOW \<and> \<not> pulsing (runPulse now led) \<and>
      level (runPulse now led) = level led \<and>
      writes (runPulse now led) = writes (setState LOW led)) \<and>
   (pulsing led \<and> pulseUp led \<and> pulseMax led = 0 \<and>
    pulseDuration led \<le> now - lastPulseTime led \<longrightarrow>
      state (runPulse now led) = HIGH \<and> \<not> pulsing (runPulse now led) \<and>
      level (runPulse now led) = pulseHigh led \<and>
      writes (runPulse now led) = writes (setState HIGH (led\<lparr>level := pulseHigh led\<rparr>)))"
proof (intro conjI impI)
  assume a: "pulsing led \<and> \<not> pulseUp led \<and> 0 < pulseMax led \<and> pulseMax led \<le> pulseCount led + 1 \<and>
    pulseDuration led \<le> now - lastPulseTime led"
  then have eq: "runPulse now led =
     setState LOW (clearPulse (led\<lparr>lastPulseTime := now, pulseUp := True,
                                   pulseCount := pulseCount led + 1\<rparr>))"
    by (simp add: runPulse_last_cycle)
  show "state (runPulse now led) = LOW" "\<not> pulsing (runPulse now led)"
    "level (runPulse now led) = level led"
    unfolding eq by (simp_all add: setState_fields clearPulse_fields)
  show "writes (runPulse now led) = writes (setState LOW led)"
    unfolding eq by (simp add: setState_def clearPulse_def Let_def)
next
  assume a: "pulsing led \<and> pulseUp led \<and> pulseMax led = 0 \<and>
    pulseDuration led \<le> now - lastPulseTime led"
  then have eq: "runPulse now led = clearPulse (setState HIGH (led\<lparr>level := pulseHigh led\<rparr>))"
    by (simp add: runPulse_one_way_top)
  show "state (runPulse now led) = HIGH" "\<not> pulsing (runPulse now led)"
    "level (runPulse now led) = pulseHigh led"
    "writes (runPulse now led) = writes (setState HIGH (led\<lparr>level := pulseHigh led\<rparr>))"
    unfolding eq by (simp_all add: setState_fields clearPulse_fields)
qed

lemma ramp_up_eval:
  "ramp_up = lamp\<lparr>isDimmable := True, state := HIGH, level := 10, pulseCount := 0, pulseMax := 0,
     pulseLow := 10, pulseHigh := 200, pulseDuration := 50, pulseUp := True, lastPulseTime := 0,
     pulsing := True, writes := [AnalogWrite 9 10]\<rparr>"
  by (simp add: ramp_up_def initPulse_def setLevel_def setState_def clearPulse_def clearBlink_def
        lamp_def Let_def)

theorem pulse_completion_witness:
  "state (runPulse 100 pulse_once) = LOW \<and> \<not> pulsing (runPulse 100 pulse_once) \<and>
   level (runPulse 100 pulse_once) = 105 \<and>
   writes (runPulse 100 pulse_once) =
     [AnalogWrite 9 10, AnalogWrite 9 200, AnalogWrite 9 105, AnalogWrite 9 0] \<and>
   state (runPulse 50 ramp_up) = HIGH \<and> \<not> pulsing (runPulse 50 ramp_up) \<and>
   level (runPulse 50 ramp_up) = 200 \<and>
   writes (runPulse 50 ramp_up) = [AnalogWrite 9 10, AnalogWrite 9 200]"
proof -
  have fin: "pulsing pulse_once \<and> \<not> pulseUp pulse_once \<and> 0 < pulseMax pulse_once \<and>
    pulseMax pulse_once \<le> pulseCount pulse_once + 1 \<and>
    pulseDuration pulse_once \<le> 100 - lastPulseTime pulse_once"
    by (simp add: pulse_once_eval)
  have inf: "pulsing ramp_up \<and> pulseUp ramp_up \<and> pulseMax ramp_up = 0 \<and>
    pulseDuration ramp_up \<le> 50 - lastPulseTime ramp_up"
    by (simp add: ramp_up_eval)
  from pulse_completion [of pulse_once 100] fin
  have 1: "state (runPulse 100 pulse_once) = LOW \<and> \<not> pulsing (runPulse 100 pulse_once) \<and>
      level (runPulse 100 pulse_once) = level pulse_once \<and>
      writes (runPulse 100 pulse_once) = writes (setState LOW pulse_once)"
    by blast
  from pulse_completion [of ramp_up 50] inf
  have 2: "state (runPulse 50 ramp_up) = HIGH \<and> \<not> pulsing (runPulse 50 ramp_up) \<and>
      level (runPulse 50 ramp_up) = pulseHigh ramp_up \<and>
      writes (runPulse 50 ramp_up) = writes (setState HIGH (ramp_up\<lparr>level := pulseHigh ramp_up\<rparr>))"
    by blast
  have 3: "level pulse_once = 105" "pulseHigh ramp_up = 200"
    "writes (setState LOW pulse_once) =
       [AnalogWrite 9 10, AnalogWrite 9 200, AnalogWrite 9 105, AnalogWrite 9 0]"
    "writes (setState HIGH (ramp_up\<lparr>level := pulseHigh ramp_up\<rparr>)) =
       [AnalogWrite 9 10, AnalogWrite 9 200]"
    by (simp_all add: pulse_once_eval ramp_up_eval setState_def lamp_def Let_def)
  from 1 2 3 show ?thesis by simp
qed

lemma turnOff_fields: "state (turnOff led) = LOW" "\<not> blinking (turnOff led)"
  by (simp_all add: turnOff_def setState_fields clearPulse_def clearBlink_def)

lemma flip_fields:
  "blinking (flip led) = blinking led" "blinkCount (flip led) = blinkCount led"
  "blinkMax (flip led) = blinkMax led" "blinkDelay (flip led) = blinkDelay led"
  "lastBlinkTime (flip led) = lastBlinkTime led"
  "state (flip led) = (if state led = HIGH then LOW else HIGH)"
  by (simp_all add: flip_def setState_fields)

lemma runBlink_idle: "\<not> blinking led \<Longrightarrow> runBlink now led = led"
  by (simp add: runBlink_def)

lemma runBlink_waiting: "\<not> blinkDelay led \<le> now - lastBlinkTime led \<Longrightarrow> runBlink now led = led"
  by (simp add: runBlink_def)

lemma runBlink_toggle:
  assumes "blinking led" "blinkDelay led \<le> now - lastBlinkTime led"
  shows "runBlink now led =
     (let led' = flip (led\<lparr>lastBlinkTime := now, blinkCount := blinkCount led + 1\<rparr>) in
      if blinkMax led \<le> blinkCount led + 1 \<and> 0 < blinkMax led
      then (turnOff led')\<lparr>blinking := False\<rparr> else led')"
  using assms by (simp add: runBlink_def Let_def flip_fields)

lemma blink_stopped: "\<not> blinking led \<Longrightarrow> toggles led ts = 0 \<and> blink_polls led ts = led"
  by (induction ts) (simp_all add: runBlink_idle)

lemma blink_endless:
  "blinking led \<Longrightarrow> blinkMax led = 0 \<Longrightarrow>
   blinking (blink_polls led ts) \<and> blinkMax (blink_polls led ts) = 0"
proof (induction ts arbitrary: led)
  case Nil
  then show ?case by simp
next
  case (Cons now ts)
  have "blinking (runBlink now led) \<and> blinkMax (runBlink now led) = 0"
    using Cons.prems by (simp add: runBlink_def Let_def flip_fields)
  with Cons.IH show ?case by simp
qed

lemma count_step:
  fixes c m :: "'w::len word"
  assumes "c < m"
  shows "unat (c + 1) = Suc (unat c)" "m \<le> c + 1 \<longleftrightarrow> unat m = Suc (unat c)"
proof -
  from assms have lt: "unat c < unat m" by (simp add: word_less_nat_alt)
  have "unat m < 2 ^ LENGTH('w)" by (rule unsigned_less)
  with lt have "Suc (unat c) < 2 ^ LENGTH('w)" by linarith
  then show 1: "unat (c + 1) = Suc (unat c)"
    by (simp add: unat_word_ariths)
  from lt show "m \<le> c + 1 \<longleftrightarrow> unat m = Suc (unat c)"
    by (auto simp: word_le_nat_alt 1)
qed
lemma blink_counts:
  assumes "blinking led" "blinkCount led < blinkMax led"
    and "state led = HIGH \<longleftrightarrow> odd (unat (blinkMax led) - unat (blinkCount led))"
  shows "toggles led ts \<le> unat (blinkMax led) - unat (blinkCount led) \<and>
         (blinking (blink_polls led ts) \<longleftrightarrow>
            toggles led ts < unat (blinkMax led) - unat (blinkCount led)) \<and>
         (\<not> blinking (blink_polls led ts) \<longrightarrow> state (blink_polls led ts) = LOW)"
  using assms
proof (induction ts arbitrary: led)
  case Nil
  then show ?case by (simp add: word_less_nat_alt)
next
  case (Cons now ts)
  from Cons.prems(2) have lt: "unat (blinkCount led) < unat (blinkMax led)"
    by (simp add: word_less_nat_alt)
  show ?case
  proof (cases "blinkDelay led \<le> now - lastBlinkTime led")
    case False
    with Cons.IH [OF Cons.prems] show ?thesis
      by (simp add: runBlink_waiting)
  next
    case True
    let ?led' = "flip (led\<lparr>lastBlinkTime := now, blinkCount := blinkCount led + 1\<rparr>)"
    from lt have pos: "0 < blinkMax led"
      by (simp add: word_less_nat_alt)
    have flipped: "state ?led' = (if state led = HIGH then LOW else HIGH)"
      by (simp add: flip_fields)
    show ?thesis
    proof (cases "blinkMax led \<le> blinkCount led + 1")
      case last: True
      with pos have run: "runBlink now led = (turnOff ?led')\<lparr>blinking := False\<rparr>"
        by (simp add: runBlink_toggle [OF Cons.prems(1) True] Let_def)
      from last count_step(2) [OF Cons.prems(2)]
      have one: "unat (blinkMax led) - unat (blinkCount led) = 1" by simp
      with Cons.prems(3) have on: "state led = HIGH" by simp
      have stop: "\<not> blinking ((turnOff ?led')\<lparr>blinking := False\<rparr>)" by simp
      have off: "state ((turnOff ?led')\<lparr>blinking := False\<rparr>) = LOW"
        by (simp add: turnOff_fields)
      from blink_stopped [OF stop, of ts] on off
      show ?thesis by (simp add: run one)
    next
      case more: False
      then have run: "runBlink now led = ?led'"
        by (simp add: runBlink_toggle [OF Cons.prems(1) True] Let_def)
      from more count_step [OF Cons.prems(2)] lt
      have nxt: "unat (blinkCount led + 1) = Suc (unat (blinkCount led))"
        "Suc (unat (blinkCount led)) < unat (blinkMax led)"
        by auto
      then have "blinkCount led + 1 < blinkMax led" by (simp add: word_less_nat_alt)
      with Cons.prems(1) have pre: "blinking ?led'" "blinkCount ?led' < blinkMax ?led'"
        by (simp_all add: flip_fields)
      from nxt(2) have "odd (unat (blinkMax led) - Suc (unat (blinkCount led))) \<longleftrightarrow>
          \<not> odd (unat (blinkMax led) - unat (blinkCount led))"
        by (simp add: Suc_diff_Suc [symmetric] del: Suc_diff_Suc)
      with Cons.prems(3) nxt(1)
      have par: "state ?led' = HIGH \<longleftrightarrow> odd (unat (blinkMax ?led') - unat (blinkCount ?led'))"
        by (simp add: flip_fields)
      have changed: "state ?led' \<noteq> state led"
        unfolding flipped by simp
      from Cons.IH [OF pre par] nxt changed show ?thesis
        by (auto simp: run flip_fields)
    qed
  qed
qed

lemma double_count:
  fixes n :: "'w::len word"
  assumes "0 < n" "unat n < 2 ^ (LENGTH('w) - 1)"
  shows "unat (n * 2) = 2 * unat n" "unat (n * 2 - 1) = 2 * unat n - 1" "0 < n * 2" "0 < n * 2 - 1"
proof -
  from assms(1) have p: "0 < unat n" by (simp add: word_less_nat_alt)
  have len: "Suc (LENGTH('w) - 1) = LENGTH('w)" by simp
  have "(2 :: nat) * 2 ^ (LENGTH('w) - 1) = 2 ^ Suc (LENGTH('w) - 1)" by (rule power_Suc [symmetric])
  with len have pw: "(2 :: nat) * 2 ^ (LENGTH('w) - 1) = 2 ^ LENGTH('w)" by simp
  from assms(2) have "2 * unat n < 2 * 2 ^ (LENGTH('w) - 1)" by simp
  with pw have small: "2 * unat n < 2 ^ LENGTH('w)" by simp
  have two: "unat (2 :: 'w word) = 2"
  proof -
    from p small have "(2 :: nat) < 2 ^ LENGTH('w)" by linarith
    then have "LENGTH('w) \<noteq> Suc 0" by (metis less_irrefl power_one_right One_nat_def)
    then show ?thesis by (simp add: unat_numeral)
  qed
  have "unat (n * 2) = unat n * unat (2 :: 'w word) mod 2 ^ LENGTH('w)"
    by (simp add: unat_word_ariths)
  with two small show d: "unat (n * 2) = 2 * unat n" by (simp add: mult.commute)
  from p d have "1 \<le> n * 2" by (simp add: word_le_nat_alt)
  then have "unat (n * 2 - 1) = unat (n * 2) - 1" by (simp add: unat_sub)
  with d show m: "unat (n * 2 - 1) = 2 * unat n - 1" by simp
  from p d show "0 < n * 2" by (simp add: word_less_nat_alt)
  from p m show "0 < n * 2 - 1" by (simp add: word_less_nat_alt)
qed

lemma initBlink_not_pulsing: "\<not> pulsing (initBlink now bDelay count led)"
  by (simp add: initBlink_def Let_def clearPulse_def)

lemma runBlink_not_pulsing: "\<not> pulsing led \<Longrightarrow> \<not> pulsing (runBlink now led)"
  by (simp add: runBlink_def Let_def flip_def turnOff_def setState_fields clearPulse_def)

lemma led_update_blink: "\<not> pulsing led \<Longrightarrow> led_update now led = runBlink now led"
  by (simp add: led_update_def runBlink_not_pulsing runPulse_def)

lemma led_updates_blink: "\<not> pulsing led \<Longrightarrow> fold led_update ts led = blink_polls led ts"
  by (induction ts arbitrary: led) (simp_all add: led_update_blink runBlink_not_pulsing)
text \<open>
  Counts whose double fits the counter. Let \<open>w\<close> be the width of \<^verbatim>\<open>unsigned int\<close>. A blink
  started with count \<open>N\<close>, \<open>0 < N < 2^(w-1)\<close>, changes the state of the LED at most
  \<open>2N - 1\<close> times when the LED was on and at most \<open>2N\<close> times when it was not; it is still
  blinking exactly as long as fewer changes than that have happened; and when it has
  stopped the state is \<^verbatim>\<open>LOW\<close>. (No pulse is active after \<^verbatim>\<open>initBlink\<close>, so that
  \<^verbatim>\<open>update()\<close> is \<^verbatim>\<open>runBlink\<close> in these runs, by \<open>led_updates_blink\<close>.)
\<close>

lemma blink_within_range:
  fixes N :: "'w::len word"
  assumes "0 < N" "unat N < 2 ^ (LENGTH('w) - 1)"
  shows "toggles (initBlink now d N led) ts \<le> (if state led = HIGH then 2 * unat N - 1 else 2 * unat N) \<and>
         (blinking (blink_polls (initBlink now d N led) ts) \<longleftrightarrow>
            toggles (initBlink now d N led) ts < (if state led = HIGH then 2 * unat N - 1 else 2 * unat N)) \<and>
         (\<not> blinking (blink_polls (initBlink now d N led) ts) \<longrightarrow>
            state (blink_polls (initBlink now d N led) ts) = LOW)"
proof -
  let ?led = "initBlink now d N led"
  from assms(1) have mx: "blinkMax ?led = (if state led = HIGH then N * 2 - 1 else N * 2)"
    by (simp add: initBlink_fields)
  have c0: "blinkCount ?led = 0" and bl: "blinking ?led" and st: "state ?led = state led"
    by (simp_all add: initBlink_fields)
  from double_count [OF assms] have lt: "blinkCount ?led < blinkMax ?led"
    unfolding c0 mx by simp
  from assms(1) have p: "0 < unat N" by (simp add: word_less_nat_alt)
  then have "odd (2 * unat N - 1)" by simp
  with double_count(1,2) [OF assms]
  have par: "state ?led = HIGH \<longleftrightarrow> odd (unat (blinkMax ?led) - unat (blinkCount ?led))"
    unfolding c0 mx st by simp
  from blink_counts [OF bl lt par, of ts] double_count(1,2) [OF assms]
  show ?thesis unfolding c0 mx by (cases "state led = HIGH") simp_all
qed

lemmas blink_eval = initBlink_def runBlink_def flip_def turnOff_def setState_def clearPulse_def
  clearBlink_def lamp_on_def lamp_def Let_def word_le_nat_alt

lemma blink_within_range_example:
  "toggles (initBlink 1000 100 2 (lamp :: 16 led)) [1050, 1100, 1150, 1200, 1250] = 4 \<and>
   \<not> blinking (blink_polls (initBlink 1000 100 2 (lamp :: 16 led)) [1050, 1100, 1150, 1200, 1250]) \<and>
   state (blink_polls (initBlink 1000 100 2 (lamp :: 16 led)) [1050, 1100, 1150, 1200, 1250]) = LOW \<and>
   writes (blink_polls (initBlink 1000 100 2 (lamp :: 16 led)) [1050, 1100, 1150, 1200, 1250]) =
     [DigitalWrite 9 HIGH, DigitalWrite 9 LOW, DigitalWrite 9 HIGH, DigitalWrite 9 LOW, DigitalWrite 9 LOW] \<and>
   toggles (initBlink 1000 100 2 (lamp_on :: 16 led)) [1050, 1100, 1150, 1200, 1250] = 3 \<and>
   \<not> blinking (blink_polls (initBlink 1000 100 2 (lamp_on :: 16 led)) [1050, 1100, 1150, 1200, 1250]) \<and>
   state (blink_polls (initBlink 1000 100 2 (lamp_on :: 16 led)) [1050, 1100, 1150, 1200, 1250]) = LOW \<and>
   writes (blink_polls (initBlink 1000 100 2 (lamp_on :: 16 led)) [1050, 1100, 1150, 1200, 1250]) =
     [DigitalWrite 9 LOW, DigitalWrite 9 HIGH, DigitalWrite 9 LOW, DigitalWrite 9 LOW]"
proof -
  have n: "(0 :: 16 word) < 2" "unat (2 :: 16 word) < 2 ^ (LENGTH(16) - 1)" by simp_all
  have off: "state (lamp :: 16 led) \<noteq> HIGH" and on: "state (lamp_on :: 16 led) = HIGH"
    by (simp_all add: lamp_on_def lamp_def)
  have t: "toggles (initBlink 1000 100 2 (lamp :: 16 led)) [1050, 1100, 1150, 1200, 1250] = 4"
    "toggles (initBlink 1000 100 2 (lamp_on :: 16 led)) [1050, 1100, 1150, 1200, 1250] = 3"
    by (simp_all add: blink_eval)
  have w: "writes (blink_polls (initBlink 1000 100 2 (lamp :: 16 led)) [1050, 1100, 1150, 1200, 1250]) =
     [DigitalWrite 9 HIGH, DigitalWrite 9 LOW, DigitalWrite 9 HIGH, DigitalWrite 9 LOW, DigitalWrite 9 LOW]"
    "writes (blink_polls (initBlink 1000 100 2 (lamp_on :: 16 led)) [1050, 1100, 1150, 1200, 1250]) =
     [DigitalWrite 9 LOW, DigitalWrite 9 HIGH, DigitalWrite 9 LOW, DigitalWrite 9 LOW]"
    by (simp_all add: blink_eval)
  from blink_within_range [OF n, of 1000 100 "lamp :: 16 led" "[1050, 1100, 1150, 1200, 1250]", unfolded t(1)] off
  have a: "\<not> blinking (blink_polls (initBlink 1000 100 2 (lamp :: 16 led)) [1050, 1100, 1150, 1200, 1250]) \<and>
    state (blink_polls (initBlink 1000 100 2 (lamp :: 16 led)) [1050, 1100, 1150, 1200, 1250]) = LOW"
    by simp
  from blink_within_range [OF n, of 1000 100 "lamp_on :: 16 led" "[1050, 1100, 1150, 1200, 1250]", unfolded t(2)] on
  have b: "\<not> blinking (blink_polls (initBlink 1000 100 2 (lamp_on :: 16 led)) [1050, 1100, 1150, 1200, 1250]) \<and>
    state (blink_polls (initBlink 1000 100 2 (lamp_on :: 16 led)) [1050, 1100, 1150, 1200, 1250]) = LOW"
    by simp
  from t w a b show ?thesis by (simp only: simp_thms)
qed

text \<open>
  Claim C5: a finite blink, \<^verbatim>\<open>blink(delay, N)\<close> with \<open>N > 0\<close>, toggles exactly \<open>2N\<close> times
  when the LED starts off (\<open>2N - 1\<close> times when it starts on) and then stops with the LED
  off. \<^verbatim>\<open>initBlink\<close> says so in its comment (``ensure LED ends OFF after count blinks'';
  ``If currently OFF, need count*2 flips'') and computes the number of flips as
  \<^verbatim>\<open>count * 2\<close> in \<^verbatim>\<open>unsigned int\<close>, where the product wraps. On the sample LED, off, with
  16 bits:
  \<^item> \<open>N = 32768\<close>: the product is 0, the value that stands for an endless blink; the blink
    is still active after any run of polls \<open>ts\<close>, not stopped after 65536 toggles; the
    first three polls write HIGH, LOW, HIGH to the pin;
  \<^item> \<open>N = 32769\<close>: the product is 2; the pin is written HIGH, then LOW, and the blink has
    ended after these two toggles instead of 65538.

  With 32 bits the same happens at \<open>2^31\<close> and \<open>2^31 + 1\<close>.
\<close>

theorem blink_count_wraps:
  "blinkMax (initBlink 1000 100 32768 (lamp :: 16 led)) = 0 \<and>
   blinking (blink_polls (initBlink 1000 100 32768 (lamp :: 16 led)) ts) \<and>
   writes (blink_polls (initBlink 1000 100 32768 (lamp :: 16 led)) [1050, 1100, 1150]) =
     [DigitalWrite 9 HIGH, DigitalWrite 9 LOW, DigitalWrite 9 HIGH] \<and>
   blinkMax (initBlink 1000 100 32769 (lamp :: 16 led)) = 2 \<and>
   toggles (initBlink 1000 100 32769 (lamp :: 16 led)) [1050, 1100, 1150, 1200] = 2 \<and>
   \<not> blinking (blink_polls (initBlink 1000 100 32769 (lamp :: 16 led)) [1050, 1100, 1150, 1200]) \<and>
   writes (blink_polls (initBlink 1000 100 32769 (lamp :: 16 led)) [1050, 1100, 1150, 1200]) =
     [DigitalWrite 9 HIGH, DigitalWrite 9 LOW, DigitalWrite 9 LOW] \<and>
   blinkMax (initBlink 1000 100 2147483648 (lamp :: 32 led)) = 0 \<and>
   blinking (blink_polls (initBlink 1000 100 2147483648 (lamp :: 32 led)) ts) \<and>
   blinkMax (initBlink 1000 100 2147483649 (lamp :: 32 led)) = 2 \<and>
   toggles (initBlink 1000 100 2147483649 (lamp :: 32 led)) [1050, 1100, 1150, 1200] = 2 \<and>
   \<not> blinking (blink_polls (initBlink 1000 100 2147483649 (lamp :: 32 led)) [1050, 1100, 1150, 1200])"
proof -
  have m16: "blinkMax (initBlink 1000 100 32768 (lamp :: 16 led)) = 0"
    and m32: "blinkMax (initBlink 1000 100 2147483648 (lamp :: 32 led)) = 0"
    by (simp_all add: blink_eval)
  have b16: "blinking (initBlink 1000 100 32768 (lamp :: 16 led))"
    and b32: "blinking (initBlink 1000 100 2147483648 (lamp :: 32 led))"
    by (simp_all add: initBlink_fields)
  from blink_endless [OF b16 m16, of ts]
  have e16: "blinking (blink_polls (initBlink 1000 100 32768 (lamp :: 16 led)) ts)" by simp
  from blink_endless [OF b32 m32, of ts]
  have e32: "blinking (blink_polls (initBlink 1000 100 2147483648 (lamp :: 32 led)) ts)" by simp
  have w16: "writes (blink_polls (initBlink 1000 100 32768 (lamp :: 16 led)) [1050, 1100, 1150]) =
     [DigitalWrite 9 HIGH, DigitalWrite 9 LOW, DigitalWrite 9 HIGH]"
    by (simp add: blink_eval)
  have s16: "blinkMax (initBlink 1000 100 32769 (lamp :: 16 led)) = 2 \<and>
   toggles (initBlink 1000 100 32769 (lamp :: 16 led)) [1050, 1100, 1150, 1200] = 2 \<and>
   \<not> blinking (blink_polls (initBlink 1000 100 32769 (lamp :: 16 led)) [1050, 1100, 1150, 1200]) \<and>
   writes (blink_polls (initBlink 1000 100 32769 (lamp :: 16 led)) [1050, 1100, 1150, 1200]) =
     [DigitalWrite 9 HIGH, DigitalWrite 9 LOW, DigitalWrite 9 LOW]"
    by (simp add: blink_eval)
  have s32: "blinkMax (initBlink 1000 100 2147483649 (lamp :: 32 led)) = 2 \<and>
   toggles (initBlink 1000 100 2147483649 (lamp :: 32 led)) [1050, 1100, 1150, 1200] = 2 \<and>
   \<not> blinking (blink_polls (initBlink 1000 100 2147483649 (lamp :: 32 led)) [1050, 1100, 1150, 1200])"
    by (simp add: blink_eval)
  from m16 e16 w16 s16 m32 e32 s32 show ?thesis by (simp only: simp_thms)
qed

end
